theory Spec2Isabelle
  imports Complex_Main
begin

section \<open>JSON values and the JavaScript operations the code applies to them\<close>

text \<open>
  A schema document is the result of \<^verbatim>\<open>JSON.parse\<close>: null, a boolean, a number, a string,
  an array or an object. An object is the list of its own entries in the order
  \<^verbatim>\<open>Object.entries\<close> yields them. A number is kept as the text \<^verbatim>\<open>String(n)\<close> gives for it
  (both zeros give \<^verbatim>\<open>0\<close>): the code only tests numbers for truthiness and prints them.
  A \<open>char\<close> stands for one code unit of a JavaScript string.
\<close>

datatype json =
    JNull
  | JBool bool
  | JNum string
  | JStr string
  | JArr "json list"
  | JObj "(string \<times> json) list"

text \<open>JavaScript truthiness, as used by \<^verbatim>\<open>!obj\<close>, \<^verbatim>\<open>a && b\<close> and \<^verbatim>\<open>a || b\<close>.\<close>

fun truthy :: "json \<Rightarrow> bool" where
  "truthy JNull = False"
| "truthy (JBool b) = b"
| "truthy (JNum r) = (r \<noteq> ''0'')"
| "truthy (JStr s) = (s \<noteq> [])"
| "truthy (JArr xs) = True"
| "truthy (JObj kvs) = True"

text \<open>
  \<^verbatim>\<open>typeof v === 'object' && v !== null\<close>: true of objects and of arrays alike.
\<close>

fun typeofObject :: "json \<Rightarrow> bool" where
  "typeofObject (JArr xs) = True"
| "typeofObject (JObj kvs) = True"
| "typeofObject v = False"

text \<open>
  Property access \<^verbatim>\<open>v.k\<close> for the names the code reads (\<^verbatim>\<open>$ref\<close>, \<^verbatim>\<open>type\<close>, \<^verbatim>\<open>items\<close>,
  \<^verbatim>\<open>title\<close>, \<^verbatim>\<open>$id\<close>, \<^verbatim>\<open>properties\<close>): \<open>None\<close> is \<^verbatim>\<open>undefined\<close>. None of these names
  is an index or a built-in property of an array, a string, a number or a boolean, so only
  an object can have them. Access on \<^verbatim>\<open>null\<close> raises; the callers below test for it first.
\<close>

fun getProp :: "json \<Rightarrow> string \<Rightarrow> json option" where
  "getProp (JObj kvs) k = map_of kvs k"
| "getProp v k = None"

definition digitChar :: "nat \<Rightarrow> char" where
  "digitChar d = ''0123456789'' ! d"

fun showNat :: "nat \<Rightarrow> string" where
  "showNat n = (if n < 10 then [digitChar n] else showNat (n div 10) @ [digitChar (n mod 10)])"

declare showNat.simps [simp del]

text \<open>\<^verbatim>\<open>Object.entries(v)\<close>: an array's entries are its elements under their decimal indices.\<close>

fun entries :: "json \<Rightarrow> (string \<times> json) list" where
  "entries (JObj kvs) = kvs"
| "entries (JArr xs) = zip (map showNat [0..<length xs]) xs"
| "entries v = []"

definition startsWith :: "string \<Rightarrow> string \<Rightarrow> bool" where
  "startsWith s p = (take (length p) s = p)"

definition endsWith :: "string \<Rightarrow> string \<Rightarrow> bool" where
  "endsWith s p = (length p \<le> length s \<and> drop (length s - length p) s = p)"

primrec lastIndexOfFrom :: "char \<Rightarrow> string \<Rightarrow> int \<Rightarrow> int \<Rightarrow> int" where
  "lastIndexOfFrom c [] i found = found"
| "lastIndexOfFrom c (x # xs) i found = lastIndexOfFrom c xs (i + 1) (if x = c then i else found)"

text \<open>\<^verbatim>\<open>s.lastIndexOf(c)\<close>: the last position of \<open>c\<close>, or \<open>-1\<close>.\<close>

definition lastIndexOf :: "string \<Rightarrow> char \<Rightarrow> int" where
  "lastIndexOf s c = lastIndexOfFrom c s 0 (- 1)"

text \<open>\<^verbatim>\<open>s.substring(a, b)\<close>: both bounds are clamped to \<open>0..length s\<close> and ordered.\<close>

definition substring :: "string \<Rightarrow> int \<Rightarrow> int \<Rightarrow> string" where
  "substring s a b =
     (let a' = min (nat a) (length s); b' = min (nat b) (length s)
      in take (max a' b' - min a' b') (drop (min a' b') s))"

text \<open>
  \<^verbatim>\<open>s.split(c)\<close> keeps empty segments and always returns at least one, so the second
  branch of the \<open>case\<close> is never taken.
\<close>

fun split :: "string \<Rightarrow> char \<Rightarrow> string list" where
  "split [] c = [[]]"
| "split (x # xs) c =
     (if x = c then [] # split xs c
      else (case split xs c of p # ps \<Rightarrow> (x # p) # ps | [] \<Rightarrow> [[x]]))"

fun join :: "string list \<Rightarrow> string \<Rightarrow> string" where
  "join [] sep = []"
| "join [p] sep = p"
| "join (p # q # ps) sep = p @ sep @ join (q # ps) sep"

section \<open>Reference extraction (schemaRelationships.ts)\<close>

text \<open>One turn of the loop of \<^verbatim>\<open>resolveRelativePath\<close>; \<^verbatim>\<open>pop\<close> on an empty array does nothing.\<close>

definition resolveStep :: "string list \<Rightarrow> string \<Rightarrow> string list" where
  "resolveStep resultParts part =
     (if part = ''..'' then butlast resultParts
      else if part \<noteq> ''.'' then resultParts @ [part]
      else resultParts)"

definition resolveRelativePath :: "string \<Rightarrow> string \<Rightarrow> string" where
  "resolveRelativePath basePath relativePath =
     (let baseDir = substring basePath 0 (lastIndexOf basePath CHR ''/'');
          baseParts = filter (\<lambda>p. p \<noteq> []) (split baseDir CHR ''/'');
          relParts = filter (\<lambda>p. p \<noteq> []) (split relativePath CHR ''/'');
          resultParts = foldl resolveStep baseParts relParts
      in join resultParts ''/'')"

text \<open>Lines 39 to 44 of \<^verbatim>\<open>extractSchemaReferences\<close>: the target path of a reference.\<close>

definition resolveRef :: "string \<Rightarrow> string \<Rightarrow> string" where
  "resolveRef schemaName rp =
     (if startsWith rp ''../'' \<or> startsWith rp ''./''
      then resolveRelativePath schemaName rp
      else if CHR ''/'' \<notin> set rp
      then (let baseDir = substring schemaName 0 (lastIndexOf schemaName CHR ''/'')
            in if baseDir \<noteq> [] then baseDir @ ''/'' @ rp else rp)
      else rp)"

datatype rel_type = OneToOne | OneToMany | Multiple

text \<open>
  \<^verbatim>\<open>SchemaRelationship\<close>; \<open>rfrom\<close>, \<open>rto\<close> and \<open>rtype\<close> are its fields \<^verbatim>\<open>from\<close>, \<^verbatim>\<open>to\<close> and
  \<^verbatim>\<open>type\<close>. The optional \<^verbatim>\<open>propertyName\<close> is \<open>None\<close> when absent.
\<close>

record relationship =
  rfrom :: string
  rto :: string
  refPath :: string
  rtype :: rel_type
  propertyName :: "string option"

text \<open>
  Lines 34 to 56: what a visited node pushes for its own \<^verbatim>\<open>$ref\<close>. The match of
  \<^verbatim>\<open>/^([^#]+)/\<close> is the longest prefix without \<^verbatim>\<open>#\<close>, and fails when that prefix is empty.
\<close>

definition ownRef :: "string \<Rightarrow> json \<Rightarrow> string \<Rightarrow> bool \<Rightarrow> relationship list" where
  "ownRef schemaName obj pname parentIsArray =
     (case getProp obj ''$ref'' of
        Some (JStr ref) \<Rightarrow>
          (let m = takeWhile (\<lambda>c. c \<noteq> CHR ''#'') ref
           in if ref \<noteq> [] \<and> m \<noteq> [] \<and> endsWith m ''.json''
              then [\<lparr> rfrom = schemaName,
                      rto = resolveRef schemaName m,
                      refPath = ref,
                      rtype = (if parentIsArray then OneToMany else OneToOne),
                      propertyName = Some pname \<rparr>]
              else [])
      | _ \<Rightarrow> [])"

lemma size_entry: "(k, v) \<in> set kvs \<Longrightarrow> size v < Suc (size_list (size_prod (\<lambda>x. 0) size) kvs)"
  by (induction kvs) auto

lemma size_elem: "v \<in> set xs \<Longrightarrow> size (v::json) < Suc (size_list size xs)"
  by (induction xs) auto

lemma size_entries: "kv \<in> set (entries obj) \<Longrightarrow> size (snd kv) < size obj"
  by (cases obj; cases kv) (auto dest: size_entry size_elem set_zip_rightD)

lemma size_getProp: "getProp obj k = Some v \<Longrightarrow> size v < size obj"
  by (cases obj) (auto dest!: map_of_SomeD size_entry)

text \<open>
  The inner function \<^verbatim>\<open>traverse\<close>. The array \<^verbatim>\<open>refs\<close> it pushes to is returned as the list
  of what one call pushes, in push order. Its parameter \<^verbatim>\<open>path\<close> is passed along unchanged
  and never read, so it is left out. No operation in it raises on a JSON value; the call
  stack is taken to be deep enough for the document.
\<close>

function traverse :: "string \<Rightarrow> json \<Rightarrow> string \<Rightarrow> bool \<Rightarrow> relationship list" where
  "traverse schemaName obj pname parentIsArray =
     (if \<not> typeofObject obj then []
      else ownRef schemaName obj pname parentIsArray
         @ (case getProp obj ''items'' of
              Some its \<Rightarrow>
                (if getProp obj ''type'' = Some (JStr ''array'') \<and> truthy its
                 then traverse schemaName its pname True else [])
            | None \<Rightarrow> [])
         @ concat (map (\<lambda>kv. if typeofObject (snd kv) \<and> fst kv \<noteq> ''items''
                               then traverse schemaName (snd kv) (fst kv) False else [])
                       (entries obj)))"
  by pat_completeness auto
termination
  by (relation "measure (\<lambda>(s, obj, p, f). size obj)") (auto dest: size_entries size_getProp)

declare traverse.simps [simp del]

definition extractSchemaReferences :: "json \<Rightarrow> string \<Rightarrow> relationship list" where
  "extractSchemaReferences schema schemaName = traverse schemaName schema [] False"

text \<open>
  The calls \<^verbatim>\<open>traverse(obj, path, pname, parentIsArray)\<close> made while \<open>doc\<close> is traversed:
  the first call, the call on the \<^verbatim>\<open>items\<close> of a visited node of type \<^verbatim>\<open>array\<close> (line 58),
  and the calls on the object values under the other keys of a visited node (line 63).
\<close>

inductive visits :: "json \<Rightarrow> json \<Rightarrow> string \<Rightarrow> bool \<Rightarrow> bool" for doc :: json where
  visits_root: "visits doc doc [] False"
| visits_items:
    "visits doc obj pname f \<Longrightarrow> typeofObject obj \<Longrightarrow>
     getProp obj ''type'' = Some (JStr ''array'') \<Longrightarrow> getProp obj ''items'' = Some its \<Longrightarrow>
     truthy its \<Longrightarrow> visits doc its pname True"
| visits_entry:
    "visits doc obj pname f \<Longrightarrow> typeofObject obj \<Longrightarrow> (k, v) \<in> set (entries obj) \<Longrightarrow>
     typeofObject v \<Longrightarrow> k \<noteq> ''items'' \<Longrightarrow> visits doc v k False"

text \<open>
  A \<^verbatim>\<open>$ref\<close> string that names another file: its part before the first \<^verbatim>\<open>#\<close> is not empty
  and ends in \<^verbatim>\<open>.json\<close> (the test of lines 35 and 36).
\<close>

definition crossFile :: "string \<Rightarrow> bool" where
  "crossFile ref = (takeWhile (\<lambda>c. c \<noteq> CHR ''#'') ref \<noteq> [] \<and>
                    endsWith (takeWhile (\<lambda>c. c \<noteq> CHR ''#'') ref) ''.json'')"

text \<open>
  The document without the \<^verbatim>\<open>items\<close> entries of its objects whose \<^verbatim>\<open>type\<close> is not
  \<^verbatim>\<open>"array"\<close>, at every depth.
\<close>

fun prune :: "json \<Rightarrow> json" where
  "prune (JObj kvs) =
     JObj (if map_of kvs ''type'' = Some (JStr ''array'')
           then map (\<lambda>kv. (fst kv, prune (snd kv))) kvs
           else filter (\<lambda>kv. fst kv \<noteq> ''items'') (map (\<lambda>kv. (fst kv, prune (snd kv))) kvs))"
| "prune (JArr xs) = JArr (map prune xs)"
| "prune v = v"

text \<open>The callers' aggregation (App.tsx): the references of every document, in map order.\<close>

definition extractAll :: "(string \<times> json) list \<Rightarrow> relationship list" where
  "extractAll schemas = concat (map (\<lambda>(name, data). extractSchemaReferences data name) schemas)"

section \<open>Graph construction (schemaRelationships.ts)\<close>

text \<open>
  The only exception the code can raise on JSON values: a property read on \<^verbatim>\<open>null\<close> or
  \<^verbatim>\<open>undefined\<close>, or the conversion to a string of an object that hides \<^verbatim>\<open>toString\<close>.
\<close>

datatype error = TypeError

text \<open>
  The conversion \<^verbatim>\<open>${v}\<close> of a template literal. An array joins its elements with commas,
  null elements as the empty string. A plain object gives \<^verbatim>\<open>[object Object]\<close>, unless an
  own entry \<^verbatim>\<open>toString\<close> hides the inherited method: no JSON value is callable, and the
  inherited \<^verbatim>\<open>valueOf\<close> returns the object, so the conversion raises.
\<close>

fun toStringJS :: "json \<Rightarrow> error + string"
  and joinElems :: "json list \<Rightarrow> error + string" where
  "toStringJS JNull = Inr ''null''"
| "toStringJS (JBool b) = Inr (if b then ''true'' else ''false'')"
| "toStringJS (JNum r) = Inr r"
| "toStringJS (JStr s) = Inr s"
| "toStringJS (JArr xs) = joinElems xs"
| "toStringJS (JObj kvs) =
     (if map_of kvs ''toString'' \<noteq> None then Inl TypeError else Inr ''[object Object]'')"
| "joinElems [] = Inr []"
| "joinElems (x # xs) =
     (case (if x = JNull then Inr [] else toStringJS x) of
        Inl e \<Rightarrow> Inl e
      | Inr a \<Rightarrow>
          (if xs = [] then Inr a
           else (case joinElems xs of Inl e \<Rightarrow> Inl e | Inr b \<Rightarrow> Inr (a @ '','' @ b))))"

text \<open>A loop whose body may raise: the first exception ends it.\<close>

fun forEachE :: "('a \<Rightarrow> error + 'b) \<Rightarrow> 'a list \<Rightarrow> error + 'b list" where
  "forEachE body [] = Inr []"
| "forEachE body (x # xs) =
     (case body x of
        Inl e \<Rightarrow> Inl e
      | Inr y \<Rightarrow> (case forEachE body xs of Inl e \<Rightarrow> Inl e | Inr ys \<Rightarrow> Inr (y # ys)))"

fun foldlE :: "('s \<Rightarrow> 'a \<Rightarrow> error + 's) \<Rightarrow> 's \<Rightarrow> 'a list \<Rightarrow> error + 's" where
  "foldlE body st [] = Inr st"
| "foldlE body st (x # xs) =
     (case body st x of Inl e \<Rightarrow> Inl e | Inr st' \<Rightarrow> foldlE body st' xs)"

text \<open>
  \<^verbatim>\<open>extractEntityType\<close>. The regular expression removes one trailing \<^verbatim>\<open>.schema.json\<close>.
\<close>

definition extractEntityType :: "string \<Rightarrow> string" where
  "extractEntityType schemaPath =
     (let withoutExtension =
            (if endsWith schemaPath ''.schema.json''
             then take (length schemaPath - length ''.schema.json'') schemaPath
             else schemaPath);
          pathParts = split withoutExtension CHR ''/'';
          filename = (case pathParts of [] \<Rightarrow> [] | p # ps \<Rightarrow> last pathParts);
          fallback = (if filename \<noteq> [] then filename else ''unknown'')
      in case pathParts of
           p0 # p1 # rest \<Rightarrow> (if p0 = ''v1'' \<and> p1 \<noteq> [] then p1 else fallback)
         | _ \<Rightarrow> fallback)"

text \<open>
  reactflow's \<^verbatim>\<open>Node\<close> and \<^verbatim>\<open>Edge\<close>, with the fields the code writes. \<open>node_id\<close>, \<open>node_type\<close>,
  \<open>node_data\<close> are \<^verbatim>\<open>id\<close>, \<^verbatim>\<open>type\<close>, \<^verbatim>\<open>data\<close>; \<open>edge_type\<close> and \<open>rel_count\<close> are the \<^verbatim>\<open>type\<close> and
  \<^verbatim>\<open>count\<close> of an edge's data. The layout reads only the label of a node's data and the
  first three fields of an edge, so the rest are record extensions.
\<close>

record position =
  pos_x :: rat
  pos_y :: rat

record labelled =
  label :: json

record schema_data = labelled +
  schemaName :: string
  isRoot :: bool
  isExpanded :: bool
  properties :: "string list"
  schemaData :: json
  entityType :: string

record 'd node =
  node_id :: string
  node_type :: "string option"
  node_data :: 'd
  position :: position

record edge =
  edge_id :: string
  source :: string
  target :: string
  animated :: bool

record edge_style =
  stroke :: string
  strokeWidth :: rat

record edge_info =
  edge_type :: rel_type
  propertyNames :: "string list"
  rel_count :: nat

record schema_edge = edge +
  style :: edge_style
  edge_data :: edge_info

record graph =
  nodes :: "schema_data node list"
  edges :: "schema_edge list"

text \<open>\<^verbatim>\<open>a || b\<close> where \<open>a\<close> is a property that may be missing.\<close>

definition orElse :: "json option \<Rightarrow> json \<Rightarrow> json" where
  "orElse a b = (case a of Some v \<Rightarrow> (if truthy v then v else b) | None \<Rightarrow> b)"

text \<open>
  \<^verbatim>\<open>Object.keys(v)\<close> with \<^verbatim>\<open>v[key]\<close> for each key: the entries of an object or an array,
  the code units of a string under their indices, nothing for a number or a boolean.
\<close>

fun keyedValues :: "json \<Rightarrow> (string \<times> json) list" where
  "keyedValues (JStr s) = zip (map showNat [0..<length s]) (map (\<lambda>c. JStr [c]) s)"
| "keyedValues v = entries v"

text \<open>Lines 105 to 107; \<^verbatim>\<open>prop.type\<close> raises when the property value is \<^verbatim>\<open>null\<close>.\<close>

definition propertyLine :: "string \<times> json \<Rightarrow> error + string" where
  "propertyLine kv =
     (if snd kv = JNull then Inl TypeError
      else (case toStringJS (orElse (getProp (snd kv) ''type'') (JStr ''any'')) of
              Inl e \<Rightarrow> Inl e
            | Inr t \<Rightarrow> Inr (fst kv @ '': '' @ t)))"

text \<open>
  The body of \<^verbatim>\<open>schemas.forEach\<close>, lines 97 to 124: the node of one document.
  \<^verbatim>\<open>schema.title\<close> raises when the document is \<^verbatim>\<open>null\<close>.
\<close>

definition schemaNode ::
  "relationship list \<Rightarrow> string set \<Rightarrow> string \<times> json \<Rightarrow> error + schema_data node" where
  "schemaNode relationships expandedNodes entry =
     (let name = fst entry; schema = snd entry
      in if schema = JNull then Inl TypeError
         else
           (let title = orElse (getProp schema ''title'')
                          (orElse (getProp schema ''$id'') (JStr name))
            in case (case getProp schema ''properties'' of
                       Some ps \<Rightarrow> (if truthy ps then forEachE propertyLine (keyedValues ps) else Inr [])
                     | None \<Rightarrow> Inr []) of
                 Inl e \<Rightarrow> Inl e
               | Inr props \<Rightarrow>
                   Inr \<lparr> node_id = name,
                         node_type = Some ''schemaNode'',
                         node_data = \<lparr> label = title,
                                       schemaName = name,
                                       isRoot = (\<not> list_ex (\<lambda>r. rto r = name) relationships),
                                       isExpanded = (name \<in> expandedNodes),
                                       properties = props,
                                       schemaData = schema,
                                       entityType = extractEntityType name \<rparr>,
                         position = \<lparr> pos_x = 0, pos_y = 0 \<rparr> \<rparr>))"

text \<open>\<^verbatim>\<open>Set.add\<close> and the key order of a \<^verbatim>\<open>Set\<close>: first insertion.\<close>

definition setAdd :: "string list \<Rightarrow> string \<Rightarrow> string list" where
  "setAdd xs x = (if x \<in> set xs then xs else xs @ [x])"

text \<open>\<^verbatim>\<open>nodeIds\<close> after the loop over the documents: every name was added once.\<close>

definition nodeIdsOf :: "(string \<times> json) list \<Rightarrow> string list" where
  "nodeIdsOf schemas = foldl setAdd [] (map fst schemas)"

text \<open>
  Lines 132 to 139. \<^verbatim>\<open>relationshipGroups\<close> is a \<^verbatim>\<open>Map\<close> from the key string to the
  relationships pushed under it, iterated in the order the keys were first set.
\<close>

definition groupKey :: "relationship \<Rightarrow> string" where
  "groupKey rel = rfrom rel @ ''-'' @ rto rel"

definition addRelationship ::
  "(string \<times> relationship list) list \<Rightarrow> relationship \<Rightarrow> (string \<times> relationship list) list" where
  "addRelationship groups rel =
     (let key = groupKey rel;
          groups' = (if map_of groups key = None then groups @ [(key, [])] else groups)
      in map (\<lambda>g. if fst g = key then (fst g, snd g @ [rel]) else g) groups')"

definition relationshipGroups :: "relationship list \<Rightarrow> (string \<times> relationship list) list" where
  "relationshipGroups relationships = foldl addRelationship [] relationships"

text \<open>Lines 144 to 147: exact match, else the first node id that ends with the path.\<close>

definition resolveNodeId :: "string list \<Rightarrow> string \<Rightarrow> string" where
  "resolveNodeId nodeIds p =
     (if p \<in> set nodeIds then p
      else (case find (\<lambda>nid. endsWith nid p) nodeIds of
              Some nid \<Rightarrow> (if nid \<noteq> [] then nid else p)
            | None \<Rightarrow> p))"

record builder =
  built :: "schema_edge list"
  edgeIds :: "string list"
  matchedCount :: nat
  unmatchedCount :: nat

text \<open>Lines 156 to 168: colour, width and class of the edge of a group.\<close>

definition edgeClass :: "relationship list \<Rightarrow> relationship \<Rightarrow> string \<times> rat \<times> rel_type" where
  "edgeClass rels rel =
     (if length rels > 1 then (''#12a525ff'', 5 / 2, Multiple)
      else if rtype rel = OneToMany then (''#ff9800'', 2, OneToMany)
      else (''#61dafb'', 1, OneToOne))"

text \<open>\<^verbatim>\<open>rels.map(r => r.propertyName).filter(Boolean)\<close>: the names that are present and not empty.\<close>

definition namesOf :: "relationship list \<Rightarrow> string list" where
  "namesOf rels =
     concat (map (\<lambda>r. case propertyName r of Some n \<Rightarrow> (if n \<noteq> [] then [n] else []) | None \<Rightarrow> []) rels)"

text \<open>
  The body of \<^verbatim>\<open>relationshipGroups.forEach\<close>, lines 142 to 190. \<^verbatim>\<open>rels[0]\<close> of an empty
  group is \<^verbatim>\<open>undefined\<close>, and reading its \<^verbatim>\<open>from\<close> raises.
\<close>

definition processGroup ::
  "string list \<Rightarrow> builder \<Rightarrow> string \<times> relationship list \<Rightarrow> error + builder" where
  "processGroup nodeIds st g =
     (case snd g of
        [] \<Rightarrow> Inl TypeError
      | rel # others \<Rightarrow>
          (let rels = snd g;
               fromNode = resolveNodeId nodeIds (rfrom rel);
               toNode = resolveNodeId nodeIds (rto rel)
           in if fromNode \<in> set nodeIds \<and> toNode \<in> set nodeIds
              then (let edgeId = fromNode @ ''-'' @ toNode
                    in if edgeId \<notin> set (edgeIds st)
                       then (case edgeClass rels rel of
                               (edgeColor, edgeWidth, edgeType) \<Rightarrow>
                                 Inr (st\<lparr> built := built st @
                                            [\<lparr> edge_id = edgeId,
                                                source = fromNode,
                                                target = toNode,
                                                animated = True,
                                                style = \<lparr> stroke = edgeColor, strokeWidth = edgeWidth \<rparr>,
                                                edge_data = \<lparr> edge_type = edgeType,
                                                              propertyNames = namesOf rels,
                                                              rel_count = length rels \<rparr> \<rparr>],
                                          edgeIds := edgeIds st @ [edgeId],
                                          matchedCount := matchedCount st + 1 \<rparr>))
                       else Inr st)
              else Inr (st\<lparr> unmatchedCount := unmatchedCount st + 1 \<rparr>)))"

text \<open>
  \<^verbatim>\<open>createSchemaGraph\<close>. \<open>schemas\<close> is the \<^verbatim>\<open>Map\<close> of documents as the list of its entries
  in insertion order; its keys are distinct.
\<close>

definition createSchemaGraph ::
  "(string \<times> json) list \<Rightarrow> relationship list \<Rightarrow> string set \<Rightarrow> error + graph" where
  "createSchemaGraph schemas relationships expandedNodes =
     (case forEachE (schemaNode relationships expandedNodes) schemas of
        Inl e \<Rightarrow> Inl e
      | Inr ns \<Rightarrow>
          (let nodeIds = nodeIdsOf schemas
           in case foldlE (processGroup nodeIds)
                     \<lparr> built = [], edgeIds = [], matchedCount = 0, unmatchedCount = 0 \<rparr>
                     (relationshipGroups relationships) of
                Inl e \<Rightarrow> Inl e
              | Inr st \<Rightarrow> Inr \<lparr> nodes = ns, edges = built st \<rparr>))"

section \<open>Layout (graphUtils.ts)\<close>

text \<open>
  The width \<^verbatim>\<open>Math.max(200, Math.min(label.length * 8 + 60, 500))\<close> of a node, lines 21 to
  24, for the value \<^verbatim>\<open>label\<close> has after \<^verbatim>\<open>|| ''\<close>. A string and an array have a length. A
  number or a boolean has none and the arithmetic gives \<^verbatim>\<open>NaN\<close>, as it does for an object
  without an own entry \<^verbatim>\<open>length\<close>. With such an entry, \<^verbatim>\<open>label.length * 8\<close> converts the
  entry to a number: the conversion first asks \<^verbatim>\<open>valueOf\<close>, which is hidden by an own entry
  or inherited and then answers with the object itself, and next \<^verbatim>\<open>toString\<close>, so it raises
  exactly when the conversion to a string does. The number it gives otherwise is left
  unevaluated.
\<close>

datatype width = Width nat | NotANumber | LengthEntry json

definition clampWidth :: "nat \<Rightarrow> nat" where
  "clampWidth len = max 200 (min (len * 8 + 60) 500)"

fun calculatedWidth :: "json \<Rightarrow> error + width" where
  "calculatedWidth (JStr s) = Inr (Width (clampWidth (length s)))"
| "calculatedWidth (JArr xs) = Inr (Width (clampWidth (length xs)))"
| "calculatedWidth (JObj kvs) =
     (case map_of kvs ''length'' of
        None \<Rightarrow> Inr NotANumber
      | Some v \<Rightarrow> (case toStringJS v of Inl e \<Rightarrow> Inl e | Inr s \<Rightarrow> Inr (LengthEntry v)))"
| "calculatedWidth v = Inr NotANumber"

record elk_child =
  child_id :: string
  child_width :: width
  child_height :: nat

record elk_edge =
  elk_edge_id :: string
  sources :: "string list"
  targets :: "string list"

record elk_graph =
  graph_id :: string
  layoutOptions :: "(string \<times> string) list"
  children :: "elk_child list"
  graph_edges :: "elk_edge list"

text \<open>What the layout engine returns: \<^verbatim>\<open>children\<close>, \<^verbatim>\<open>x\<close> and \<^verbatim>\<open>y\<close> may be missing.\<close>

record elk_node =
  placed_id :: string
  placed_x :: "rat option"
  placed_y :: "rat option"

record elk_layout =
  placed :: "elk_node list option"

text \<open>The callback of \<^verbatim>\<open>nodes.map\<close>, lines 19 to 30: the size hint of one node.\<close>

definition elkChild :: "('m labelled_scheme, 'n) node_scheme \<Rightarrow> error + elk_child" where
  "elkChild n =
     (case calculatedWidth (orElse (Some (label (node_data n))) (JStr [])) of
        Inl e \<Rightarrow> Inl e
      | Inr w \<Rightarrow> Inr \<lparr> child_id = node_id n, child_width = w, child_height = 80 \<rparr>)"

text \<open>
  Lines 7 to 36: the request handed to the layout engine. These lines stand before the
  \<^verbatim>\<open>try\<close> of line 38, so an exception of the callback leaves \<^verbatim>\<open>layoutGraph\<close>.
\<close>

definition elkGraph ::
  "('m labelled_scheme, 'n) node_scheme list \<Rightarrow> 'z edge_scheme list \<Rightarrow> error + elk_graph" where
  "elkGraph ns es =
     (case forEachE elkChild ns of
        Inl e \<Rightarrow> Inl e
      | Inr cs \<Rightarrow>
          Inr \<lparr> graph_id = ''root'',
                layoutOptions =
                  [(''elk.algorithm'', ''layered''),
                   (''elk.direction'', ''DOWN''),
                   (''elk.spacing.nodeNode'', ''80''),
                   (''elk.layered.spacing.nodeNodeBetweenLayers'', ''150''),
                   (''elk.layered.nodePlacement.strategy'', ''NETWORK_SIMPLEX''),
                   (''elk.layered.crossingMinimization.semiInteractive'', ''true''),
                   (''elk.layered.considerModelOrder.strategy'', ''NODES_AND_EDGES''),
                   (''elk.spacing.componentComponent'', ''100'')],
                children = cs,
                graph_edges =
                  map (\<lambda>e. \<lparr> elk_edge_id = edge_id e, sources = [source e], targets = [target e] \<rparr>) es \<rparr>)"

text \<open>\<^verbatim>\<open>layoutNode?.x || 0\<close>: zero when the node or the coordinate is missing.\<close>

definition coordinate :: "elk_node option \<Rightarrow> (elk_node \<Rightarrow> rat option) \<Rightarrow> rat" where
  "coordinate layoutNode axis =
     (case layoutNode of
        None \<Rightarrow> 0
      | Some n \<Rightarrow> (case axis n of None \<Rightarrow> 0 | Some v \<Rightarrow> v))"

definition placeNode :: "elk_layout \<Rightarrow> ('d, 'n) node_scheme \<Rightarrow> ('d, 'n) node_scheme" where
  "placeNode layout n =
     (let layoutNode = (case placed layout of
                          None \<Rightarrow> None
                        | Some cs \<Rightarrow> find (\<lambda>c. placed_id c = node_id n) cs)
      in n\<lparr> position := \<lparr> pos_x = coordinate layoutNode placed_x,
                            pos_y = coordinate layoutNode placed_y \<rparr> \<rparr>)"

text \<open>
  \<^verbatim>\<open>layoutGraph\<close>. The layout engine of elkjs is the parameter \<open>layout\<close>: given the request
  it returns a layout, or fails with some value \<open>err\<close> (a rejected promise or an exception,
  both caught by line 53). The engine is called only once the request is built. The first
  component is how the returned promise settles: \<open>Inr\<close> the nodes and edges it resolves to,
  \<open>Inl\<close> the exception it rejects with; the second is the console after the call.
\<close>

definition layoutGraph ::
  "(elk_graph \<Rightarrow> 'e + elk_layout) \<Rightarrow> (string \<times> 'e) list \<Rightarrow>
   ('m labelled_scheme, 'n) node_scheme list \<Rightarrow> 'z edge_scheme list \<Rightarrow>
   (error + ('m labelled_scheme, 'n) node_scheme list \<times> 'z edge_scheme list) \<times> (string \<times> 'e) list" where
  "layoutGraph layout console ns es =
     (case elkGraph ns es of
        Inl e \<Rightarrow> (Inl e, console)
      | Inr request \<Rightarrow>
          (case layout request of
             Inr result \<Rightarrow> (Inr (map (placeNode result) ns, es), console)
           | Inl err \<Rightarrow> (Inr (ns, es), console @ [(''Layout error:'', err)])))"

text \<open>
  The edge id the first relationship of a group resolves to (lines 144 to 150), when both
  ends resolve to nodes, and the edge pushed for a group (lines 170 to 184).
\<close>

definition resolvedEdgeId :: "string list \<Rightarrow> relationship \<Rightarrow> string option" where
  "resolvedEdgeId nodeIds rel =
     (let fromNode = resolveNodeId nodeIds (rfrom rel);
          toNode = resolveNodeId nodeIds (rto rel)
      in if fromNode \<in> set nodeIds \<and> toNode \<in> set nodeIds
         then Some (fromNode @ ''-'' @ toNode) else None)"

definition groupEdge :: "string list \<Rightarrow> relationship list \<Rightarrow> schema_edge" where
  "groupEdge nodeIds rels =
     (let rel = hd rels;
          fromNode = resolveNodeId nodeIds (rfrom rel);
          toNode = resolveNodeId nodeIds (rto rel)
      in case edgeClass rels rel of
           (edgeColor, edgeWidth, edgeType) \<Rightarrow>
             \<lparr> edge_id = fromNode @ ''-'' @ toNode,
               source = fromNode,
               target = toNode,
               animated = True,
               style = \<lparr> stroke = edgeColor, strokeWidth = edgeWidth \<rparr>,
               edge_data = \<lparr> edge_type = edgeType,
                             propertyNames = namesOf rels,
                             rel_count = length rels \<rparr> \<rparr>)"

text \<open>Documents used as concrete inputs below.\<close>

definition docRole :: json where
  "docRole = JObj [(''properties'', JObj [(''role'', JObj [(''$ref'', JStr ''role.schema.json'')])])]"

definition docMixed :: json where
  "docMixed = JObj [(''properties'', JObj
       [(''local'', JObj [(''$ref'', JStr ''#/definitions/X'')]),
        (''address'', JObj [(''$ref'', JStr ''../address/address.schema.json#/definitions/A'')]),
        (''notes'', JObj [(''$ref'', JStr ''notes.txt'')])])]"

definition docTags :: json where
  "docTags = JObj [(''properties'', JObj
       [(''tags'', JObj [(''type'', JStr ''array''), (''items'', JObj [(''$ref'', JStr ''tag.json'')])]),
        (''owner'', JObj [(''$ref'', JStr ''tag.json'')])])]"

text \<open>
  The scenario of three documents: \<^verbatim>\<open>a.json\<close> is empty, \<^verbatim>\<open>b.json\<close> refers to it from a
  plain property, \<^verbatim>\<open>c.json\<close> from the \<^verbatim>\<open>items\<close> of an array property. Then four documents
  whose names contain the separator of the group key.
\<close>

definition docA :: json where "docA = JObj []"
definition docB :: json where
  "docB = JObj [(''properties'', JObj [(''a'', JObj [(''$ref'', JStr ''a.json'')])])]"
definition docC :: json where
  "docC = JObj [(''properties'', JObj [(''list'', JObj [(''type'', JStr ''array''),
                    (''items'', JObj [(''$ref'', JStr ''a.json'')])])])]"
definition schemasABC :: "(string \<times> json) list" where
  "schemasABC = [(''a.json'', docA), (''b.json'', docB), (''c.json'', docC)]"

definition docHy1 :: json where
  "docHy1 = JObj [(''p'', JObj [(''$ref'', JStr ''c.json'')]), (''q'', JObj [(''$ref'', JStr ''c.json'')])]"
definition docHy2 :: json where
  "docHy2 = JObj [(''r'', JObj [(''$ref'', JStr ''b.json-c.json'')])]"
definition schemasHyphen :: "(string \<times> json) list" where
  "schemasHyphen = [(''a.json-b.json'', docHy1), (''a.json'', docHy2), (''b.json-c.json'', JObj []), (''c.json'', JObj [])]"

text \<open>
  Two documents, the second referring to the first from two properties.
\<close>

definition docTwice :: json where
  "docTwice = JObj [(''properties'', JObj
       [(''billing'', JObj [(''$ref'', JStr ''address.json'')]),
        (''shipping'', JObj [(''$ref'', JStr ''address.json'')])])]"

definition schemasTwice :: "(string \<times> json) list" where
  "schemasTwice = [(''address.json'', JObj []), (''order.json'', docTwice)]"

text \<open>
  Two positioned nodes, one labelled by a string and one by an object with a numeric
  \<^verbatim>\<open>length\<close>, one edge between them, and the request built from them. Then a label whose
  \<^verbatim>\<open>length\<close> hides \<^verbatim>\<open>toString\<close>.
\<close>

definition placedNodes :: "labelled node list" where
  "placedNodes =
     [\<lparr> node_id = ''a.json'', node_type = Some ''schemaNode'', node_data = \<lparr> label = JStr ''A'' \<rparr>,
        position = \<lparr> pos_x = 3, pos_y = 4 \<rparr> \<rparr>,
      \<lparr> node_id = ''b.json'', node_type = Some ''schemaNode'',
        node_data = \<lparr> label = JObj [(''length'', JNum ''70'')] \<rparr>,
        position = \<lparr> pos_x = 5, pos_y = 6 \<rparr> \<rparr>]"

definition placedEdges :: "edge list" where
  "placedEdges = [\<lparr> edge_id = ''b.json-a.json'', source = ''b.json'', target = ''a.json'', animated = True \<rparr>]"

definition hiddenToString :: json where
  "hiddenToString = JObj [(''length'', JObj [(''toString'', JNum ''1'')])]"

definition placedRequest :: elk_graph where
  "placedRequest =
     \<lparr> graph_id = ''root'',
       layoutOptions =
         [(''elk.algorithm'', ''layered''),
          (''elk.direction'', ''DOWN''),
          (''elk.spacing.nodeNode'', ''80''),
          (''elk.layered.spacing.nodeNodeBetweenLayers'', ''150''),
          (''elk.layered.nodePlacement.strategy'', ''NETWORK_SIMPLEX''),
          (''elk.layered.crossingMinimization.semiInteractive'', ''true''),
          (''elk.layered.considerModelOrder.strategy'', ''NODES_AND_EDGES''),
          (''elk.spacing.componentComponent'', ''100'')],
       children =
         [\<lparr> child_id = ''a.json'', child_width = Width 200, child_height = 80 \<rparr>,
          \<lparr> child_id = ''b.json'', child_width = LengthEntry (JNum ''70''), child_height = 80 \<rparr>],
       graph_edges =
         [\<lparr> elk_edge_id = ''b.json-a.json'', sources = [''b.json''], targets = [''a.json''] \<rparr>] \<rparr>"

text \<open>
  A layout engine that always fails.
\<close>

definition failingLayout :: "elk_graph \<Rightarrow> string + elk_layout" where
  "failingLayout request = Inl ''layout failed''"

section \<open>Graph construction on a store of objects\<close>

text \<open>
  \<^verbatim>\<open>createSchemaGraph\<close> receives its \<^verbatim>\<open>Map\<close>, array and \<^verbatim>\<open>Set\<close> by reference and works by
  mutation: \<^verbatim>\<open>nodes.push\<close>, \<^verbatim>\<open>nodeIds.add\<close>, \<^verbatim>\<open>relationshipGroups.set\<close>,
  \<^verbatim>\<open>relationshipGroups.get(key)!.push\<close>, \<^verbatim>\<open>edges.push\<close>, \<^verbatim>\<open>edgeIds.add\<close> and the two counters.
  What one call leaves behind for the next one is therefore a question about the store.
  Here every container is a cell of a store, a call takes the addresses of its three
  arguments, allocates its own containers and returns the addresses of \<^verbatim>\<open>nodes\<close> and
  \<^verbatim>\<open>edges\<close>. The documents and the relationship objects are values: lines 87 to 194 assign
  to no property of them. The array \<^verbatim>\<open>properties\<close> of a node is filled before the node is
  pushed and is part of the node built by \<open>schemaNode\<close>.
\<close>

type_synonym addr = nat

datatype cell =
    DocMap "(string \<times> json) list"
  | RelArray "relationship list"
  | StrSet "string list"
  | NodeArray "schema_data node list"
  | EdgeArray "schema_edge list"
  | GroupMap "(string \<times> addr) list"
  | Counter nat

text \<open>The cells in use are the addresses below \<open>limit\<close>; \<open>alloc\<close> is \<^verbatim>\<open>[]\<close>, \<^verbatim>\<open>new Set()\<close>,
  \<^verbatim>\<open>new Map()\<close> or the declaration of a counter.\<close>

record store =
  cellAt :: "addr \<Rightarrow> cell option"
  limit :: addr

definition alloc :: "cell \<Rightarrow> store \<Rightarrow> addr \<times> store" where
  "alloc c st = (limit st, st\<lparr> cellAt := (cellAt st)(limit st \<mapsto> c), limit := limit st + 1 \<rparr>)"

text \<open>Reading a container. An address that holds no container of the expected kind reads
  as the empty one.\<close>

definition docsAt :: "store \<Rightarrow> addr \<Rightarrow> (string \<times> json) list" where
  "docsAt st a = (case cellAt st a of Some (DocMap m) \<Rightarrow> m | _ \<Rightarrow> [])"

definition relsAt :: "store \<Rightarrow> addr \<Rightarrow> relationship list" where
  "relsAt st a = (case cellAt st a of Some (RelArray rs) \<Rightarrow> rs | _ \<Rightarrow> [])"

definition strsAt :: "store \<Rightarrow> addr \<Rightarrow> string list" where
  "strsAt st a = (case cellAt st a of Some (StrSet xs) \<Rightarrow> xs | _ \<Rightarrow> [])"

definition nodesAt :: "store \<Rightarrow> addr \<Rightarrow> schema_data node list" where
  "nodesAt st a = (case cellAt st a of Some (NodeArray ns) \<Rightarrow> ns | _ \<Rightarrow> [])"

definition edgesAt :: "store \<Rightarrow> addr \<Rightarrow> schema_edge list" where
  "edgesAt st a = (case cellAt st a of Some (EdgeArray es) \<Rightarrow> es | _ \<Rightarrow> [])"

definition groupsAt :: "store \<Rightarrow> addr \<Rightarrow> (string \<times> addr) list" where
  "groupsAt st a = (case cellAt st a of Some (GroupMap g) \<Rightarrow> g | _ \<Rightarrow> [])"

definition countAt :: "store \<Rightarrow> addr \<Rightarrow> nat" where
  "countAt st a = (case cellAt st a of Some (Counter n) \<Rightarrow> n | _ \<Rightarrow> 0)"

text \<open>\<^verbatim>\<open>push\<close> on the three kinds of array, \<^verbatim>\<open>Set.add\<close>, \<^verbatim>\<open>Map.set\<close> of a key that is not in
  the map yet (line 135 is guarded by line 134), and \<^verbatim>\<open>++\<close> on a counter.\<close>

definition pushNode :: "addr \<Rightarrow> schema_data node \<Rightarrow> store \<Rightarrow> store" where
  "pushNode a n st = st\<lparr> cellAt := (cellAt st)(a \<mapsto> NodeArray (nodesAt st a @ [n])) \<rparr>"

definition pushEdge :: "addr \<Rightarrow> schema_edge \<Rightarrow> store \<Rightarrow> store" where
  "pushEdge a e st = st\<lparr> cellAt := (cellAt st)(a \<mapsto> EdgeArray (edgesAt st a @ [e])) \<rparr>"

definition pushRel :: "addr \<Rightarrow> relationship \<Rightarrow> store \<Rightarrow> store" where
  "pushRel a r st = st\<lparr> cellAt := (cellAt st)(a \<mapsto> RelArray (relsAt st a @ [r])) \<rparr>"

definition addStr :: "addr \<Rightarrow> string \<Rightarrow> store \<Rightarrow> store" where
  "addStr a x st = st\<lparr> cellAt := (cellAt st)(a \<mapsto> StrSet (setAdd (strsAt st a) x)) \<rparr>"

definition setGroup :: "addr \<Rightarrow> string \<Rightarrow> addr \<Rightarrow> store \<Rightarrow> store" where
  "setGroup a key arr st = st\<lparr> cellAt := (cellAt st)(a \<mapsto> GroupMap (groupsAt st a @ [(key, arr)])) \<rparr>"

definition increment :: "addr \<Rightarrow> store \<Rightarrow> store" where
  "increment a st = st\<lparr> cellAt := (cellAt st)(a \<mapsto> Counter (countAt st a + 1)) \<rparr>"

text \<open>\<^verbatim>\<open>forEach\<close> with a body that mutates the store and may raise.\<close>

fun forEachS :: "(store \<Rightarrow> 'a \<Rightarrow> error option \<times> store) \<Rightarrow> 'a list \<Rightarrow> store \<Rightarrow> error option \<times> store" where
  "forEachS body [] st = (None, st)"
| "forEachS body (x # xs) st =
     (case body st x of
        (Some e, st') \<Rightarrow> (Some e, st')
      | (None, st') \<Rightarrow> forEachS body xs st')"

text \<open>
  The body of \<^verbatim>\<open>schemas.forEach\<close>, lines 96 to 126: it reads \<^verbatim>\<open>relationships\<close> and
  \<^verbatim>\<open>expandedNodes\<close> as they are in the store at this iteration, pushes the node and adds
  the name.
\<close>

definition nodeStep :: "addr \<Rightarrow> addr \<Rightarrow> addr \<Rightarrow> addr \<Rightarrow> store \<Rightarrow> string \<times> json \<Rightarrow> error option \<times> store" where
  "nodeStep aRels aExpanded aNodes aNodeIds st entry =
     (case schemaNode (relsAt st aRels) (set (strsAt st aExpanded)) entry of
        Inl e \<Rightarrow> (Some e, st)
      | Inr n \<Rightarrow> (None, addStr aNodeIds (fst entry) (pushNode aNodes n st)))"

text \<open>
  The body of \<^verbatim>\<open>relationships.forEach\<close>, lines 133 to 138. A new key gets a fresh array;
  \<^verbatim>\<open>get(key)!\<close> of a missing key is \<^verbatim>\<open>undefined\<close>, and \<^verbatim>\<open>push\<close> on it raises.
\<close>

definition groupStep :: "addr \<Rightarrow> store \<Rightarrow> relationship \<Rightarrow> error option \<times> store" where
  "groupStep aGroups st rel =
     (let key = groupKey rel;
          st1 = (if map_of (groupsAt st aGroups) key = None
                 then (case alloc (RelArray []) st of (arr, st') \<Rightarrow> setGroup aGroups key arr st')
                 else st)
      in case map_of (groupsAt st1 aGroups) key of
           None \<Rightarrow> (Some TypeError, st1)
         | Some arr \<Rightarrow> (None, pushRel arr rel st1))"

text \<open>
  The body of \<^verbatim>\<open>relationshipGroups.forEach\<close>, lines 141 to 191, on the array the map holds
  for a key.
\<close>

definition edgeStep ::
  "addr \<Rightarrow> addr \<Rightarrow> addr \<Rightarrow> addr \<Rightarrow> addr \<Rightarrow> store \<Rightarrow> string \<times> addr \<Rightarrow> error option \<times> store" where
  "edgeStep aNodeIds aEdges aEdgeIds aMatched aUnmatched st g =
     (let rels = relsAt st (snd g); nodeIds = strsAt st aNodeIds
      in case rels of
           [] \<Rightarrow> (Some TypeError, st)
         | rel # others \<Rightarrow>
             (let fromNode = resolveNodeId nodeIds (rfrom rel);
                  toNode = resolveNodeId nodeIds (rto rel)
              in if fromNode \<in> set nodeIds \<and> toNode \<in> set nodeIds
                 then (let edgeId = fromNode @ ''-'' @ toNode
                       in if edgeId \<notin> set (strsAt st aEdgeIds)
                          then (case edgeClass rels rel of
                                  (edgeColor, edgeWidth, edgeType) \<Rightarrow>
                                    (None,
                                     increment aMatched
                                       (addStr aEdgeIds edgeId
                                         (pushEdge aEdges
                                            \<lparr> edge_id = edgeId,
                                              source = fromNode,
                                              target = toNode,
                                              animated = True,
                                              style = \<lparr> stroke = edgeColor, strokeWidth = edgeWidth \<rparr>,
                                              edge_data = \<lparr> edge_type = edgeType,
                                                            propertyNames = namesOf rels,
                                                            rel_count = length rels \<rparr> \<rparr>
                                            st))))
                          else (None, st))
                 else (None, increment aUnmatched st)))"

text \<open>
  \<^verbatim>\<open>createSchemaGraph\<close>, lines 87 to 194, in the order of the source: the three containers
  of lines 92 to 94, the loop over the documents, the set and the counters of lines 128 to
  130, the map of line 132 and the two loops over the relationships and over the groups.
  An exception leaves the store as it is at that point. Each loop runs over the entries
  its container holds when the loop starts; the body of a loop writes to containers the
  call has allocated, never to the one the loop runs over.
\<close>

definition createSchemaGraphS :: "addr \<Rightarrow> addr \<Rightarrow> addr \<Rightarrow> store \<Rightarrow> (error + addr \<times> addr) \<times> store" where
  "createSchemaGraphS aSchemas aRels aExpanded st0 =
     (case alloc (NodeArray []) st0 of (aNodes, st1) \<Rightarrow>
      case alloc (EdgeArray []) st1 of (aEdges, st2) \<Rightarrow>
      case alloc (StrSet []) st2 of (aNodeIds, st3) \<Rightarrow>
      case forEachS (nodeStep aRels aExpanded aNodes aNodeIds) (docsAt st3 aSchemas) st3 of
        (Some e, st4) \<Rightarrow> (Inl e, st4)
      | (None, st4) \<Rightarrow>
          (case alloc (StrSet []) st4 of (aEdgeIds, st5) \<Rightarrow>
           case alloc (Counter 0) st5 of (aMatched, st6) \<Rightarrow>
           case alloc (Counter 0) st6 of (aUnmatched, st7) \<Rightarrow>
           case alloc (GroupMap []) st7 of (aGroups, st8) \<Rightarrow>
           case forEachS (groupStep aGroups) (relsAt st8 aRels) st8 of
             (Some e, st9) \<Rightarrow> (Inl e, st9)
           | (None, st9) \<Rightarrow>
               (case forEachS (edgeStep aNodeIds aEdges aEdgeIds aMatched aUnmatched)
                       (groupsAt st9 aGroups) st9 of
                  (Some e, st10) \<Rightarrow> (Inl e, st10)
                | (None, st10) \<Rightarrow> (Inr (aNodes, aEdges), st10))))"

text \<open>What a caller holds after the call: the exception, or the two arrays read from the
  store.\<close>

definition readGraph :: "store \<Rightarrow> addr \<times> addr \<Rightarrow> graph" where
  "readGraph st r = \<lparr> nodes = nodesAt st (fst r), edges = edgesAt st (snd r) \<rparr>"

definition outcome :: "(error + addr \<times> addr) \<times> store \<Rightarrow> error + graph" where
  "outcome rs = (case fst rs of Inl e \<Rightarrow> Inl e | Inr r \<Rightarrow> Inr (readGraph (snd rs) r))"





text \<open>
  The relations between the store and the state of the loops of \<open>createSchemaGraph\<close> above:
  the builder of the edge loop read from its four cells, the groups read through the
  addresses the map holds, the invariant of the map (distinct keys, distinct arrays, every
  array allocated after the map), and the cells the edge loop leaves alone.
\<close>

definition builderAt :: "store \<Rightarrow> addr \<Rightarrow> addr \<Rightarrow> addr \<Rightarrow> addr \<Rightarrow> builder" where
  "builderAt st aEdges aEdgeIds aMatched aUnmatched =
     \<lparr> built = edgesAt st aEdges, edgeIds = strsAt st aEdgeIds,
       matchedCount = countAt st aMatched, unmatchedCount = countAt st aUnmatched \<rparr>"

definition groupsOf :: "store \<Rightarrow> addr \<Rightarrow> (string \<times> relationship list) list" where
  "groupsOf st aG = map (\<lambda>g. (fst g, relsAt st (snd g))) (groupsAt st aG)"

definition groupsInv :: "addr \<Rightarrow> addr \<Rightarrow> store \<Rightarrow> bool" where
  "groupsInv L aG st =
     (distinct (map fst (groupsAt st aG)) \<and> distinct (map snd (groupsAt st aG))
      \<and> list_all (\<lambda>g. L \<le> snd g \<and> snd g < limit st) (groupsAt st aG)
      \<and> aG < L \<and> L \<le> limit st)"

definition edgeFrame :: "addr \<Rightarrow> addr \<Rightarrow> addr \<Rightarrow> addr \<Rightarrow> store \<Rightarrow> store \<Rightarrow> bool" where
  "edgeFrame aEd aEI aM aU st st' =
     (limit st' = limit st
      \<and> (\<forall>a. a \<noteq> aEd \<longrightarrow> a \<noteq> aEI \<longrightarrow> a \<noteq> aM \<longrightarrow> a \<noteq> aU \<longrightarrow> cellAt st' a = cellAt st a))"




section \<open>Properties of reference extraction\<close>

lemma traverse_unfold_obj:
  "typeofObject obj \<Longrightarrow> traverse P obj pn f =
     ownRef P obj pn f
     @ (case getProp obj ''items'' of
              Some its \<Rightarrow>
                (if getProp obj ''type'' = Some (JStr ''array'') \<and> truthy its
                 then traverse P its pn True else [])
            | None \<Rightarrow> [])
     @ concat (map (\<lambda>kv. if typeofObject (snd kv) \<and> fst kv \<noteq> ''items''
                               then traverse P (snd kv) (fst kv) False else [])
                       (entries obj))"
  by (subst traverse.simps) simp

lemma traverse_non_object: "\<not> typeofObject obj \<Longrightarrow> traverse P obj pn f = []"
  by (subst traverse.simps) simp

lemma ownRef_sound:
  "r \<in> set (ownRef P obj pn f) \<Longrightarrow>
     rfrom r = P \<and> crossFile (refPath r) \<and>
     rto r = resolveRef P (takeWhile (\<lambda>c. c \<noteq> CHR ''#'') (refPath r)) \<and>
     rtype r = (if f then OneToMany else OneToOne) \<and> propertyName r = Some pn"
  by (auto simp: ownRef_def crossFile_def Let_def split: option.splits json.splits if_splits)

lemma traverse_sound:
  "r \<in> set (traverse P obj pn f) \<Longrightarrow>
     rfrom r = P \<and> crossFile (refPath r) \<and>
     rto r = resolveRef P (takeWhile (\<lambda>c. c \<noteq> CHR ''#'') (refPath r))"
proof (induction P obj pn f rule: traverse.induct)
  case (1 P obj pn f)
  show ?case
  proof (cases "typeofObject obj")
    case False
    with "1.prems" show ?thesis by (simp add: traverse_non_object)
  next
    case True
    from "1.prems" traverse_unfold_obj[OF True, of P pn f]
    consider (own) "r \<in> set (ownRef P obj pn f)"
      | (items) its where "getProp obj ''items'' = Some its"
          "getProp obj ''type'' = Some (JStr ''array'')" "truthy its"
          "r \<in> set (traverse P its pn True)"
      | (entry) kv where "kv \<in> set (entries obj)" "typeofObject (snd kv)" "fst kv \<noteq> ''items''"
          "r \<in> set (traverse P (snd kv) (fst kv) False)"
      by (auto split: option.splits if_splits)
    then show ?thesis
    proof cases
      case own
      then show ?thesis using ownRef_sound by blast
    next
      case items
      then show ?thesis using "1.IH"(1) True by blast
    next
      case entry
      then show ?thesis using "1.IH"(2) True by blast
    qed
  qed
qed

lemma ownRef_subset: "typeofObject obj \<Longrightarrow> set (ownRef P obj pn f) \<subseteq> set (traverse P obj pn f)"
  using traverse_unfold_obj[of obj P pn f] by auto

lemma traverse_items_subset:
  assumes "typeofObject obj" "getProp obj ''type'' = Some (JStr ''array'')"
    "getProp obj ''items'' = Some its" "truthy its"
  shows "set (traverse P its pn True) \<subseteq> set (traverse P obj pn f)"
  using assms traverse_unfold_obj[of obj P pn f] by auto

lemma traverse_entry_subset:
  assumes "typeofObject obj" "(k, v) \<in> set (entries obj)" "typeofObject v" "k \<noteq> ''items''"
  shows "set (traverse P v k False) \<subseteq> set (traverse P obj pn f)"
  using assms traverse_unfold_obj[of obj P pn f] by force

lemma visits_subset:
  "visits doc obj pn f \<Longrightarrow> set (traverse P obj pn f) \<subseteq> set (traverse P doc [] False)"
proof (induction rule: visits.induct)
  case visits_root
  show ?case by simp
next
  case (visits_items obj pn f its)
  then show ?case using traverse_items_subset by blast
next
  case (visits_entry obj pn f k v)
  then show ?case using traverse_entry_subset by blast
qed

lemma ownRef_collected:
  assumes "getProp node ''$ref'' = Some (JStr ref)" "crossFile ref"
  shows "ownRef P node pn f =
    [\<lparr> rfrom = P, rto = resolveRef P (takeWhile (\<lambda>c. c \<noteq> CHR ''#'') ref), refPath = ref,
       rtype = (if f then OneToMany else OneToOne), propertyName = Some pn \<rparr>]"
  using assms by (auto simp: ownRef_def crossFile_def Let_def)

lemma visits_collected:
  assumes "visits doc node pn f" "getProp node ''$ref'' = Some (JStr ref)" "crossFile ref"
  shows "\<lparr> rfrom = P, rto = resolveRef P (takeWhile (\<lambda>c. c \<noteq> CHR ''#'') ref), refPath = ref,
       rtype = (if f then OneToMany else OneToOne), propertyName = Some pn \<rparr>
     \<in> set (extractSchemaReferences doc P)"
proof -
  from assms(2) have "typeofObject node" by (cases node) auto
  then have "set (ownRef P node pn f) \<subseteq> set (traverse P node pn f)" by (rule ownRef_subset)
  with visits_subset[OF assms(1), of P] ownRef_collected[OF assms(2,3), of P pn f]
  show ?thesis by (auto simp: extractSchemaReferences_def)
qed


lemma endsWith_iff: "endsWith s p \<longleftrightarrow> (\<exists>q. s = q @ p)"
proof
  assume "endsWith s p"
  then have "s = take (length s - length p) s @ p"
    by (metis append_take_drop_id endsWith_def)
  then show "\<exists>q. s = q @ p" ..
next
  assume "\<exists>q. s = q @ p"
  then show "endsWith s p" by (auto simp: endsWith_def)
qed

lemma split_not_Nil: "split s c \<noteq> []"
  by (cases s) (auto split: list.splits)

lemma split_no_sep: "c \<notin> set s \<Longrightarrow> split s c = [s]"
  by (induction s) auto

lemma last_split_append:
  "c \<notin> set suf \<Longrightarrow> \<exists>q. last (split (pre @ suf) c) = q @ suf"
proof (induction pre)
  case Nil
  then show ?case by (simp add: split_no_sep)
next
  case (Cons x pre)
  then obtain q where q: "last (split (pre @ suf) c) = q @ suf" by blast
  obtain p ps where ps: "split (pre @ suf) c = p # ps"
    using split_not_Nil by (cases "split (pre @ suf) c") auto
  show ?case
  proof (cases "x = c")
    case True
    with q show ?thesis by (simp add: split_not_Nil)
  next
    case False
    then show ?thesis using q ps by (cases "ps = []") auto
  qed
qed

lemma join_snoc: "join (xs @ [p]) sep = (if xs = [] then p else join xs sep @ sep @ p)"
  by (induction xs sep rule: join.induct) auto

lemma filter_keeps_last:
  assumes "xs \<noteq> []" "Q (last xs)"
  shows "filter Q xs = filter Q (butlast xs) @ [last xs]"
proof -
  have "filter Q xs = filter Q (butlast xs @ [last xs])" using assms(1) by simp
  also have "\<dots> = filter Q (butlast xs) @ [last xs]" using assms(2) by simp
  finally show ?thesis .
qed

lemma resolveRelativePath_suffix:
  assumes "CHR ''/'' \<notin> set suf" "suf \<noteq> []" "suf \<noteq> ''..''" "suf \<noteq> ''.''"
    "length suf > 2"
  shows "endsWith (resolveRelativePath base (pre @ suf)) suf"
proof -
  obtain q where q: "last (split (pre @ suf) CHR ''/'') = q @ suf"
    using last_split_append[OF assms(1)] by blast
  let ?l = "q @ suf"
  have l: "?l \<noteq> []" "?l \<noteq> ''..''" "?l \<noteq> ''.''"
    using assms by (auto simp: append_eq_Cons_conv)
  have "filter (\<lambda>p. p \<noteq> []) (split (pre @ suf) CHR ''/'')
        = filter (\<lambda>p. p \<noteq> []) (butlast (split (pre @ suf) CHR ''/'')) @ [?l]"
    using filter_keeps_last[of "split (pre @ suf) CHR ''/''" "\<lambda>p. p \<noteq> []"] q l(1)
    by (simp add: split_not_Nil)
  then obtain ys acc where
    "resolveRelativePath base (pre @ suf) = join (resolveStep acc ?l) ''/''"
    by (simp add: resolveRelativePath_def Let_def)
  then have "resolveRelativePath base (pre @ suf) = join (acc @ [?l]) ''/''"
    using l by (simp add: resolveStep_def)
  then show ?thesis by (auto simp: join_snoc endsWith_iff)
qed

lemma resolveRef_json:
  assumes "endsWith m ''.json''"
  shows "endsWith (resolveRef P m) ''.json''"
proof -
  from assms obtain pre where m: "m = pre @ ''.json''" by (auto simp: endsWith_iff)
  have rel: "endsWith (resolveRelativePath P m) ''.json''"
    unfolding m by (rule resolveRelativePath_suffix) simp_all
  show ?thesis
    using rel assms by (auto simp: resolveRef_def Let_def endsWith_iff)
qed


lemma map_of_map_snd: "map_of (map (\<lambda>kv. (fst kv, h (snd kv))) kvs) k = map_option h (map_of kvs k)"
  by (induction kvs) auto

lemma map_of_filter_other:
  "k \<noteq> k0 \<Longrightarrow> map_of (filter (\<lambda>kv. fst kv \<noteq> k0) kvs) k = map_of kvs k"
  by (induction kvs) auto

lemma map_of_filter_out: "map_of (filter (\<lambda>kv. fst kv \<noteq> k0) kvs) k0 = None"
  by (induction kvs) auto

lemma concat_map_filter_empty:
  "(\<And>x. x \<in> set xs \<Longrightarrow> \<not> Q x \<Longrightarrow> g x = []) \<Longrightarrow> concat (map g (filter Q xs)) = concat (map g xs)"
  by (induction xs) auto

lemma prune_JStr [simp]: "prune v = JStr s \<longleftrightarrow> v = JStr s"
  by (cases v) auto

lemma typeofObject_prune [simp]: "typeofObject (prune v) = typeofObject v"
  by (cases v) auto

lemma truthy_prune [simp]: "truthy (prune v) = truthy v"
  by (cases v) auto

lemma getProp_prune:
  "k \<noteq> ''items'' \<Longrightarrow> getProp (prune obj) k = map_option prune (getProp obj k)"
  by (cases obj) (auto simp: map_of_map_snd map_of_filter_other)

lemma getProp_prune_items:
  "getProp (prune obj) ''items'' =
     (if getProp obj ''type'' = Some (JStr ''array'') then map_option prune (getProp obj ''items'')
      else None)"
  by (cases obj) (auto simp: map_of_map_snd map_of_filter_out)

lemma ownRef_prune: "ownRef P (prune obj) pn f = ownRef P obj pn f"
proof -
  have "getProp (prune obj) ''$ref'' = map_option prune (getProp obj ''$ref'')"
    by (rule getProp_prune) simp
  then show ?thesis
    by (cases "getProp obj ''$ref''") (auto simp: ownRef_def split: json.splits)
qed

lemma entries_prune:
  assumes "\<And>kv. kv \<in> set (entries obj) \<Longrightarrow> typeofObject (snd kv) \<Longrightarrow> fst kv \<noteq> ''items'' \<Longrightarrow>
             traverse P (prune (snd kv)) (fst kv) False = traverse P (snd kv) (fst kv) False"
  shows "concat (map (\<lambda>kv. if typeofObject (snd kv) \<and> fst kv \<noteq> ''items''
                               then traverse P (snd kv) (fst kv) False else []) (entries (prune obj)))
       = concat (map (\<lambda>kv. if typeofObject (snd kv) \<and> fst kv \<noteq> ''items''
                               then traverse P (snd kv) (fst kv) False else []) (entries obj))"
    (is "concat (map ?g (entries (prune obj))) = concat (map ?g (entries obj))")
proof -
  let ?h = "\<lambda>kv. (fst kv, prune (snd kv))"
  have step: "concat (map ?g (map ?h kvs)) = concat (map ?g kvs)"
    if "set kvs \<subseteq> set (entries obj)" for kvs
  proof -
    have "(?g \<circ> ?h) kv = ?g kv" if "kv \<in> set kvs" for kv
      using assms[of kv] that \<open>set kvs \<subseteq> set (entries obj)\<close> by auto
    then have "map (?g \<circ> ?h) kvs = map ?g kvs" by (rule map_cong[OF refl])
    then show ?thesis by (simp only: map_map)
  qed
  show ?thesis
  proof (cases obj)
    case (JArr xs)
    have "entries (prune obj) = map ?h (entries obj)"
      unfolding JArr by (simp add: zip_map2 case_prod_beta)
    then show ?thesis using step[of "entries obj"] by simp
  next
    case (JObj kvs)
    show ?thesis
    proof (cases "map_of kvs ''type'' = Some (JStr ''array'')")
      case True
      then have "entries (prune obj) = map ?h (entries obj)" unfolding JObj by simp
      then show ?thesis using step[of "entries obj"] by simp
    next
      case False
      then have "entries (prune obj) = filter (\<lambda>kv. fst kv \<noteq> ''items'') (map ?h (entries obj))"
        unfolding JObj by simp
      moreover have "concat (map ?g (filter (\<lambda>kv. fst kv \<noteq> ''items'') (map ?h (entries obj))))
          = concat (map ?g (map ?h (entries obj)))"
        by (rule concat_map_filter_empty) auto
      ultimately show ?thesis using step[of "entries obj"] by simp
    qed
  qed simp_all
qed

lemma traverse_prune: "traverse P (prune obj) pn f = traverse P obj pn f"
proof (induction P obj pn f rule: traverse.induct)
  case (1 P obj pn f)
  show ?case
  proof (cases "typeofObject obj")
    case False
    then show ?thesis by (simp add: traverse_non_object)
  next
    case True
    have own: "ownRef P (prune obj) pn f = ownRef P obj pn f" by (rule ownRef_prune)
    have ty: "getProp (prune obj) ''type'' = map_option prune (getProp obj ''type'')"
      by (rule getProp_prune) simp
    have items: "(case getProp (prune obj) ''items'' of
              Some its \<Rightarrow>
                (if getProp (prune obj) ''type'' = Some (JStr ''array'') \<and> truthy its
                 then traverse P its pn True else [])
            | None \<Rightarrow> [])
        = (case getProp obj ''items'' of
              Some its \<Rightarrow>
                (if getProp obj ''type'' = Some (JStr ''array'') \<and> truthy its
                 then traverse P its pn True else [])
            | None \<Rightarrow> [])"
      using "1.IH"(1)[OF _ _ _ ] True
      by (auto simp: getProp_prune_items ty split: option.splits)
    have ents: "concat (map (\<lambda>kv. if typeofObject (snd kv) \<and> fst kv \<noteq> ''items''
                               then traverse P (snd kv) (fst kv) False else []) (entries (prune obj)))
       = concat (map (\<lambda>kv. if typeofObject (snd kv) \<and> fst kv \<noteq> ''items''
                               then traverse P (snd kv) (fst kv) False else []) (entries obj))"
      by (rule entries_prune) (use "1.IH"(2) True in blast)
    from True have "typeofObject (prune obj)" by simp
    then show ?thesis
      using traverse_unfold_obj[of "prune obj" P pn f] traverse_unfold_obj[OF True, of P pn f]
        own items ents by simp
  qed
qed


lemma traverse_JObj:
  "traverse P (JObj kvs) pn f =
     ownRef P (JObj kvs) pn f
     @ (case map_of kvs ''items'' of
              Some its \<Rightarrow>
                (if map_of kvs ''type'' = Some (JStr ''array'') \<and> truthy its
                 then traverse P its pn True else [])
            | None \<Rightarrow> [])
     @ concat (map (\<lambda>kv. if typeofObject (snd kv) \<and> fst kv \<noteq> ''items''
                               then traverse P (snd kv) (fst kv) False else []) kvs)"
  by (subst traverse.simps) (simp cong: option.case_cong)

lemma traverse_JArr:
  "traverse P (JArr xs) pn f =
     concat (map (\<lambda>kv. if typeofObject (snd kv) \<and> fst kv \<noteq> ''items''
                               then traverse P (snd kv) (fst kv) False else [])
              (zip (map showNat [0..<length xs]) xs))"
  by (subst traverse.simps) (simp add: ownRef_def)

lemmas traverse_eval = traverse_JObj traverse_JArr traverse_non_object ownRef_def
  extractSchemaReferences_def resolveRef_def resolveRelativePath_def resolveStep_def
  startsWith_def endsWith_def substring_def lastIndexOf_def Let_def

lemma resolve_role: "resolveRef ''v1/user/user.schema.json'' ''role.schema.json'' = ''v1/user/role.schema.json''"
  by (simp add: traverse_eval)

lemma crossFile_role: "crossFile ''role.schema.json''"
  by (simp add: crossFile_def endsWith_def)

text \<open>
  Claim C3, as the code has it. In a document at path \<^verbatim>\<open>v1/user/user.schema.json\<close>, a
  \<^verbatim>\<open>$ref\<close> with the bare name \<^verbatim>\<open>role.schema.json\<close> gets the directory of the referencing
  document in front: every relationship extracted from that reference has the target
  \<^verbatim>\<open>v1/user/role.schema.json\<close>, and one is extracted whenever the node that carries the
  reference is visited.
\<close>

theorem C3_bare_name_in_own_directory:
  "(\<forall>r \<in> set (extractSchemaReferences D ''v1/user/user.schema.json'').
       refPath r = ''role.schema.json'' \<longrightarrow> rto r = ''v1/user/role.schema.json'')
   \<and> (visits D node pn f \<and> getProp node ''$ref'' = Some (JStr ''role.schema.json'') \<longrightarrow>
        (\<exists>r \<in> set (extractSchemaReferences D ''v1/user/user.schema.json'').
           refPath r = ''role.schema.json'' \<and> rto r = ''v1/user/role.schema.json''))"
proof (intro conjI ballI impI)
  fix r
  assume "r \<in> set (extractSchemaReferences D ''v1/user/user.schema.json'')"
    and ref: "refPath r = ''role.schema.json''"
  then have "rto r = resolveRef ''v1/user/user.schema.json''
                      (takeWhile (\<lambda>c. c \<noteq> CHR ''#'') (refPath r))"
    using traverse_sound by (simp add: extractSchemaReferences_def)
  then show "rto r = ''v1/user/role.schema.json''"
    using resolve_role by (simp add: ref)
next
  assume a: "visits D node pn f \<and> getProp node ''$ref'' = Some (JStr ''role.schema.json'')"
  have "takeWhile (\<lambda>c. c \<noteq> CHR ''#'') ''role.schema.json'' = ''role.schema.json''" by simp
  with visits_collected[of D node pn f "''role.schema.json''" "''v1/user/user.schema.json''"]
    a crossFile_role resolve_role
  show "\<exists>r \<in> set (extractSchemaReferences D ''v1/user/user.schema.json'').
           refPath r = ''role.schema.json'' \<and> rto r = ''v1/user/role.schema.json''"
    by force
qed

text \<open>
  The statement of C3 at a document with the reference under \<^verbatim>\<open>properties.role\<close>.
\<close>

theorem C3_witness:
  "visits docRole (JObj [(''$ref'', JStr ''role.schema.json'')]) ''role'' False
   \<and> getProp (JObj [(''$ref'', JStr ''role.schema.json'')]) ''$ref'' = Some (JStr ''role.schema.json'')
   \<and> map refPath (extractSchemaReferences docRole ''v1/user/user.schema.json'') = [''role.schema.json'']
   \<and> map rto (extractSchemaReferences docRole ''v1/user/user.schema.json'') = [''v1/user/role.schema.json'']"
proof -
  have v1: "visits docRole (JObj [(''role'', JObj [(''$ref'', JStr ''role.schema.json'')])]) ''properties'' False"
    by (rule visits_entry[OF visits_root]) (simp_all add: docRole_def)
  have v2: "visits docRole (JObj [(''$ref'', JStr ''role.schema.json'')]) ''role'' False"
    by (rule visits_entry[OF v1]) simp_all
  show ?thesis
    using v2 C3_bare_name_in_own_directory[of docRole "JObj [(''$ref'', JStr ''role.schema.json'')]" "''role''" False]
    by (simp add: docRole_def traverse_eval)
qed

text \<open>
  Claim C3 as the specification words it fails: the target is not \<^verbatim>\<open>v1/role.schema.json\<close>.
\<close>

theorem C3_counterexample:
  "map rto (extractSchemaReferences (JObj [(''$ref'', JStr ''role.schema.json'')])
              ''v1/user/user.schema.json'') = [''v1/user/role.schema.json'']
   \<and> ''v1/role.schema.json'' \<notin> set (map rto (extractSchemaReferences
              (JObj [(''$ref'', JStr ''role.schema.json'')]) ''v1/user/user.schema.json''))"
  by (simp add: traverse_eval)

text \<open>
  Claim C5. Whatever the document and the path, every extracted relationship has a target
  that ends in \<^verbatim>\<open>.json\<close> and none comes from a \<^verbatim>\<open>$ref\<close> that starts with \<^verbatim>\<open>#\<close>; a node
  whose \<^verbatim>\<open>$ref\<close> starts with \<^verbatim>\<open>#\<close> pushes nothing for it.
\<close>

theorem C5_targets_end_in_json:
  "(\<forall>r \<in> set (extractSchemaReferences D P).
       endsWith (rto r) ''.json'' \<and> \<not> startsWith (refPath r) ''#'')
   \<and> (getProp node ''$ref'' = Some (JStr (CHR ''#'' # rest)) \<longrightarrow> ownRef P node pn f = [])"
proof (intro conjI ballI impI)
  fix r
  assume "r \<in> set (extractSchemaReferences D P)"
  then have cf: "crossFile (refPath r)"
    and to: "rto r = resolveRef P (takeWhile (\<lambda>c. c \<noteq> CHR ''#'') (refPath r))"
    using traverse_sound by (simp_all add: extractSchemaReferences_def)
  from cf have "endsWith (takeWhile (\<lambda>c. c \<noteq> CHR ''#'') (refPath r)) ''.json''"
    by (simp add: crossFile_def)
  then show "endsWith (rto r) ''.json''" unfolding to by (rule resolveRef_json)
  from cf show "\<not> startsWith (refPath r) ''#''"
    by (cases "refPath r") (auto simp: crossFile_def startsWith_def)
next
  assume "getProp node ''$ref'' = Some (JStr (CHR ''#'' # rest))"
  then show "ownRef P node pn f = []" by (simp add: ownRef_def)
qed

text \<open>
  The statement of C5 at a document with a fragment-only reference, a relative reference
  with a fragment, and a reference to a file that is not \<^verbatim>\<open>.json\<close>.
\<close>

theorem C5_witness:
  "map rto (extractSchemaReferences docMixed ''v1/user/user.schema.json'')
      = [''v1/address/address.schema.json'']
   \<and> list_all (\<lambda>r. endsWith (rto r) ''.json'' \<and> \<not> startsWith (refPath r) ''#'')
        (extractSchemaReferences docMixed ''v1/user/user.schema.json'')
   \<and> getProp (JObj [(''$ref'', JStr ''#/definitions/X'')]) ''$ref'' = Some (JStr ''#/definitions/X'')
   \<and> ownRef ''v1/user/user.schema.json'' (JObj [(''$ref'', JStr ''#/definitions/X'')]) ''local'' False = []"
  using C5_targets_end_in_json[of docMixed "''v1/user/user.schema.json''"
      "JObj [(''$ref'', JStr ''#/definitions/X'')]" "''/definitions/X''" "''local''" False]
  by (simp add: docMixed_def traverse_eval list_all_iff)

text \<open>
  Claim C6, for the nodes the traversal visits. A cross-file \<^verbatim>\<open>$ref\<close> directly on the
  \<^verbatim>\<open>items\<close> object of a visited node of type \<^verbatim>\<open>array\<close> is collected as one-to-many, under
  the property name of that node; the same \<^verbatim>\<open>$ref\<close> directly on the value of another key
  of a visited node is collected as one-to-one, under that key.
\<close>

theorem C6_visited_array_items_one_to_many:
  assumes "visits D node pn f" and "crossFile ref"
  shows "(getProp node ''type'' = Some (JStr ''array'') \<and> getProp node ''items'' = Some its
          \<and> getProp its ''$ref'' = Some (JStr ref) \<longrightarrow>
            \<lparr> rfrom = P, rto = resolveRef P (takeWhile (\<lambda>c. c \<noteq> CHR ''#'') ref), refPath = ref,
              rtype = OneToMany, propertyName = Some pn \<rparr> \<in> set (extractSchemaReferences D P))
       \<and> ((k, v) \<in> set (entries node) \<and> k \<noteq> ''items'' \<and> getProp v ''$ref'' = Some (JStr ref) \<longrightarrow>
            \<lparr> rfrom = P, rto = resolveRef P (takeWhile (\<lambda>c. c \<noteq> CHR ''#'') ref), refPath = ref,
              rtype = OneToOne, propertyName = Some k \<rparr> \<in> set (extractSchemaReferences D P))"
proof (intro conjI impI)
  assume a: "getProp node ''type'' = Some (JStr ''array'') \<and> getProp node ''items'' = Some its
          \<and> getProp its ''$ref'' = Some (JStr ref)"
  then have "typeofObject node" by (cases node) auto
  moreover from a have "truthy its" by (cases its) auto
  ultimately have "visits D its pn True"
    using assms(1) a visits_items by blast
  from visits_collected[OF this _ assms(2), of P] a
  show "\<lparr> rfrom = P, rto = resolveRef P (takeWhile (\<lambda>c. c \<noteq> CHR ''#'') ref), refPath = ref,
              rtype = OneToMany, propertyName = Some pn \<rparr> \<in> set (extractSchemaReferences D P)"
    by simp
next
  assume a: "(k, v) \<in> set (entries node) \<and> k \<noteq> ''items'' \<and> getProp v ''$ref'' = Some (JStr ref)"
  then have "typeofObject node" by (cases node) auto
  moreover from a have "typeofObject v" by (cases v) auto
  ultimately have "visits D v k False"
    using assms(1) a visits_entry by blast
  from visits_collected[OF this _ assms(2), of P] a
  show "\<lparr> rfrom = P, rto = resolveRef P (takeWhile (\<lambda>c. c \<noteq> CHR ''#'') ref), refPath = ref,
              rtype = OneToOne, propertyName = Some k \<rparr> \<in> set (extractSchemaReferences D P)"
    by simp
qed



text \<open>
  The statement of C6 at a document with an array property \<^verbatim>\<open>tags\<close> and a plain property
  \<^verbatim>\<open>owner\<close>, both referring to \<^verbatim>\<open>tag.json\<close>.
\<close>

theorem C6_witness:
  "visits docTags (JObj [(''type'', JStr ''array''), (''items'', JObj [(''$ref'', JStr ''tag.json'')])])
      ''tags'' False
   \<and> visits docTags (JObj
       [(''tags'', JObj [(''type'', JStr ''array''), (''items'', JObj [(''$ref'', JStr ''tag.json'')])]),
        (''owner'', JObj [(''$ref'', JStr ''tag.json'')])]) ''properties'' False
   \<and> crossFile ''tag.json''
   \<and> \<lparr> rfrom = ''b.json'', rto = ''tag.json'', refPath = ''tag.json'',
        rtype = OneToMany, propertyName = Some ''tags'' \<rparr> \<in> set (extractSchemaReferences docTags ''b.json'')
   \<and> \<lparr> rfrom = ''b.json'', rto = ''tag.json'', refPath = ''tag.json'',
        rtype = OneToOne, propertyName = Some ''owner'' \<rparr> \<in> set (extractSchemaReferences docTags ''b.json'')"
proof -
  let ?tags = "JObj [(''type'', JStr ''array''), (''items'', JObj [(''$ref'', JStr ''tag.json'')])]"
  let ?owner = "JObj [(''$ref'', JStr ''tag.json'')]"
  let ?props = "JObj [(''tags'', ?tags), (''owner'', ?owner)]"
  have v1: "visits docTags ?props ''properties'' False"
    by (rule visits_entry[OF visits_root]) (simp_all add: docTags_def)
  have v2: "visits docTags ?tags ''tags'' False"
    by (rule visits_entry[OF v1]) simp_all
  have cf: "crossFile ''tag.json''" by (simp add: crossFile_def endsWith_def)
  have res: "resolveRef ''b.json'' ''tag.json'' = ''tag.json''"
    by (simp add: traverse_eval)
  show ?thesis
    using v1 v2 cf
      C6_visited_array_items_one_to_many[OF v2 cf, of ?owner "''b.json''" "''owner''" ?owner]
      C6_visited_array_items_one_to_many[OF v1 cf, of ?owner "''b.json''" "''owner''" ?owner]
    by (simp add: res)
qed

text \<open>
  Claim C6 fails for a node the traversal does not visit: an array node under the
  \<^verbatim>\<open>items\<close> key of an object that is not of type \<^verbatim>\<open>array\<close> is skipped with its reference.
\<close>

theorem C6_unvisited_array_counterexample:
  "extractSchemaReferences
     (JObj [(''items'', JObj [(''type'', JStr ''array''), (''items'', JObj [(''$ref'', JStr ''a.json'')])])])
     ''b.json'' = []"
  by (simp add: traverse_eval)

text \<open>
  Claim C8, for the values that fail the test of line 33: null, a boolean, a number or a
  string as the document gives no relationship (the model has no exception to raise).
\<close>

theorem C8_primitive_root_yields_nothing:
  "\<not> typeofObject D \<Longrightarrow> extractSchemaReferences D P = []"
  by (simp add: extractSchemaReferences_def traverse_non_object)

text \<open>
  The statement of C8 at a string and at null.
\<close>

theorem C8_witness:
  "\<not> typeofObject (JStr ''not a schema'') \<and> \<not> typeofObject JNull
   \<and> extractSchemaReferences (JStr ''not a schema'') ''a.json'' = []
   \<and> extractSchemaReferences JNull ''a.json'' = []"
  using C8_primitive_root_yields_nothing[of "JStr ''not a schema''" "''a.json''"]
    C8_primitive_root_yields_nothing[of JNull "''a.json''"]
  by simp

text \<open>
  Claim C8 does not extend to an array: it is not a JSON object, yet it passes the test of
  line 33 and its elements are traversed.
\<close>

theorem C8_array_root_counterexample:
  "extractSchemaReferences (JArr [JObj [(''$ref'', JStr ''a.json'')]]) ''b.json''
     = [\<lparr> rfrom = ''b.json'', rto = ''a.json'', refPath = ''a.json'', rtype = OneToOne,
          propertyName = Some ''0'' \<rparr>]"
  by (simp add: traverse_eval showNat.simps digitChar_def)

text \<open>
  Claim C10. Deleting the \<^verbatim>\<open>items\<close> entry of every object whose \<^verbatim>\<open>type\<close> is absent or not
  \<^verbatim>\<open>"array"\<close>, at every depth of the document, leaves the extracted relationships
  unchanged: nothing inside such an entry is ever collected.
\<close>

theorem C10_items_of_non_array_skipped:
  "extractSchemaReferences (prune D) P = extractSchemaReferences D P"
  by (simp add: extractSchemaReferences_def traverse_prune)

section \<open>Properties of graph construction\<close>

lemmas graph_eval = createSchemaGraph_def nodeIdsOf_def schemaNode_def propertyLine_def orElse_def
  extractEntityType_def setAdd_def groupKey_def addRelationship_def relationshipGroups_def
  resolveNodeId_def edgeClass_def namesOf_def processGroup_def extractAll_def
  endsWith_def Let_def

lemma extractAll_ABC:
  "extractAll schemasABC =
    [\<lparr>rfrom = ''b.json'', rto = ''a.json'', refPath = ''a.json'', rtype = OneToOne, propertyName = Some ''a''\<rparr>,
     \<lparr>rfrom = ''c.json'', rto = ''a.json'', refPath = ''a.json'', rtype = OneToMany, propertyName = Some ''list''\<rparr>]"
  by (simp add: schemasABC_def docA_def docB_def docC_def extractAll_def traverse_eval)

lemma extractAll_Hyphen:
  "extractAll schemasHyphen =
   [\<lparr>rfrom = ''a.json-b.json'', rto = ''c.json'', refPath = ''c.json'',
     rtype = OneToOne, propertyName = Some ''p''\<rparr>,
  \<lparr>rfrom = ''a.json-b.json'', rto = ''c.json'', refPath = ''c.json'',
     rtype = OneToOne, propertyName = Some ''q''\<rparr>,
  \<lparr>rfrom = ''a.json'', rto = ''b.json-c.json'', refPath = ''b.json-c.json'',
     rtype = OneToOne, propertyName = Some ''r''\<rparr>]"
  by (simp add: schemasHyphen_def docHy1_def docHy2_def extractAll_def traverse_eval)

lemma extractAll_Twice:
  "extractAll schemasTwice =
    [\<lparr>rfrom = ''order.json'', rto = ''address.json'', refPath = ''address.json'',
       rtype = OneToOne, propertyName = Some ''billing''\<rparr>,
     \<lparr>rfrom = ''order.json'', rto = ''address.json'', refPath = ''address.json'',
       rtype = OneToOne, propertyName = Some ''shipping''\<rparr>]"
  by (simp add: schemasTwice_def docTwice_def extractAll_def traverse_eval)

lemma forEachE_Inr:
  "forEachE body xs = Inr ys \<Longrightarrow> list_all2 (\<lambda>x y. body x = Inr y) xs ys"
proof (induction xs arbitrary: ys)
  case Nil
  then show ?case by simp
next
  case (Cons x xs)
  then show ?case by (auto split: sum.splits)
qed

lemma schemaNode_Inr:
  assumes "schemaNode relationships expandedNodes entry = Inr n"
  shows "node_id n = fst entry" and "schemaName (node_data n) = fst entry"
    and "isRoot (node_data n) = (\<not> list_ex (\<lambda>r. rto r = fst entry) relationships)"
    and "isExpanded (node_data n) = (fst entry \<in> expandedNodes)"
    and "position n = \<lparr> pos_x = 0, pos_y = 0 \<rparr>"
  using assms
  by (auto simp: schemaNode_def Let_def split: if_splits sum.splits)

lemma createSchemaGraph_nodes:
  assumes "createSchemaGraph schemas relationships expandedNodes = Inr g"
  shows "list_all2 (\<lambda>entry n. schemaNode relationships expandedNodes entry = Inr n) schemas (nodes g)"
  using assms
  by (auto simp: createSchemaGraph_def Let_def split: sum.splits dest: forEachE_Inr)

subsection \<open>Grouping and the edge loop\<close>

lemma map_of_map_group:
  "map_of (map (\<lambda>g. if fst g = key then (fst g, snd g @ [rel]) else g) gs) k
     = map_option (\<lambda>rs. if k = key then rs @ [rel] else rs) (map_of gs k)"
  by (induction gs) auto

lemma fst_map_group:
  "map fst (map (\<lambda>g. if fst g = key then (fst g, snd g @ [rel]) else g) gs) = map fst gs"
  by (induction gs) auto

lemma addRelationship_keys:
  "map fst (addRelationship gs rel) =
     (if groupKey rel \<in> set (map fst gs) then map fst gs else map fst gs @ [groupKey rel])"
  by (auto simp: addRelationship_def Let_def fst_map_group map_of_eq_None_iff)

lemma addRelationship_lookup:
  "map_of (addRelationship gs rel) k =
     (if k = groupKey rel
      then Some ((case map_of gs k of None \<Rightarrow> [] | Some rs \<Rightarrow> rs) @ [rel])
      else map_of gs k)"
  by (auto simp: addRelationship_def Let_def map_of_map_group map_of_append map_add_def
           split: option.splits)

lemma relationshipGroups_snoc:
  "relationshipGroups (rels @ [rel]) = addRelationship (relationshipGroups rels) rel"
  by (simp add: relationshipGroups_def)

lemma relationshipGroups_keys:
  "distinct (map fst (relationshipGroups rels)) \<and>
   set (map fst (relationshipGroups rels)) = groupKey ` set rels"
proof (induction rels rule: rev_induct)
  case Nil
  show ?case by (simp add: relationshipGroups_def)
next
  case (snoc rel rels)
  let ?G = "relationshipGroups rels"
  have keys: "map fst (relationshipGroups (rels @ [rel])) =
     (if groupKey rel \<in> set (map fst ?G) then map fst ?G else map fst ?G @ [groupKey rel])"
    unfolding relationshipGroups_snoc by (rule addRelationship_keys)
  from snoc show ?case unfolding keys by auto
qed

lemma filter_other_key: "k \<notin> groupKey ` set rels \<Longrightarrow> filter (\<lambda>r. groupKey r = k) rels = []"
  by (auto simp: filter_empty_conv)

lemma relationshipGroups_lookup:
  "map_of (relationshipGroups rels) k =
     (if k \<in> groupKey ` set rels then Some (filter (\<lambda>r. groupKey r = k) rels) else None)"
proof (induction rels rule: rev_induct)
  case Nil
  show ?case by (simp add: relationshipGroups_def)
next
  case (snoc rel rels)
  show ?case
  proof (cases "k = groupKey rel")
    case True
    then show ?thesis
      using snoc filter_other_key[of k rels]
      by (auto simp: relationshipGroups_snoc addRelationship_lookup)
  next
    case False
    then show ?thesis
      using snoc by (auto simp: relationshipGroups_snoc addRelationship_lookup)
  qed
qed

lemma relationshipGroups_member:
  assumes "g \<in> set (relationshipGroups rels)"
  shows "snd g = filter (\<lambda>r. groupKey r = fst g) rels" and "snd g \<noteq> []"
proof -
  have "distinct (map fst (relationshipGroups rels))"
    using relationshipGroups_keys by blast
  moreover have "(fst g, snd g) \<in> set (relationshipGroups rels)" using assms by simp
  ultimately have "map_of (relationshipGroups rels) (fst g) = Some (snd g)"
    by (simp only: map_of_eq_Some_iff)
  then have *: "fst g \<in> groupKey ` set rels" "snd g = filter (\<lambda>r. groupKey r = fst g) rels"
    by (auto simp: relationshipGroups_lookup split: if_splits)
  show "snd g = filter (\<lambda>r. groupKey r = fst g) rels" by (rule *(2))
  from * show "snd g \<noteq> []" by (auto simp: filter_empty_conv)
qed

lemma processGroup_step:
  assumes "snd g \<noteq> []"
  shows "processGroup ids st g =
     Inr (case resolvedEdgeId ids (hd (snd g)) of
            None \<Rightarrow> st\<lparr> unmatchedCount := unmatchedCount st + 1 \<rparr>
          | Some eid \<Rightarrow>
              (if eid \<in> set (edgeIds st) then st
               else st\<lparr> built := built st @ [groupEdge ids (snd g)],
                        edgeIds := edgeIds st @ [eid],
                        matchedCount := matchedCount st + 1 \<rparr>))"
proof -
  from assms obtain rel others where g: "snd g = rel # others" by (cases "snd g") auto
  obtain c w ty where cls: "edgeClass (rel # others) rel = (c, w, ty)"
    by (cases "edgeClass (rel # others) rel") auto
  show ?thesis
    by (simp add: processGroup_def resolvedEdgeId_def groupEdge_def g cls Let_def)
qed

lemma groupEdge_id:
  "resolvedEdgeId ids (hd rels) = Some eid \<Longrightarrow> edge_id (groupEdge ids rels) = eid"
  by (auto simp: resolvedEdgeId_def groupEdge_def Let_def split: prod.splits if_splits)

lemma foldlE_groups:
  assumes "\<forall>g \<in> set gs. snd g \<noteq> []"
  shows "\<exists>st'. foldlE (processGroup ids) st gs = Inr st' \<and>
     filter (\<lambda>e. edge_id e = K) (built st') =
       filter (\<lambda>e. edge_id e = K) (built st) @
         (if K \<in> set (edgeIds st) then []
          else (case find (\<lambda>g. resolvedEdgeId ids (hd (snd g)) = Some K) gs of
                  None \<Rightarrow> [] | Some g \<Rightarrow> [groupEdge ids (snd g)]))"
  using assms
proof (induction gs arbitrary: st)
  case Nil
  show ?case by simp
next
  case (Cons g gs)
  then have ne: "snd g \<noteq> []" and rest: "\<forall>g \<in> set gs. snd g \<noteq> []" by simp_all
  let ?st1 = "case resolvedEdgeId ids (hd (snd g)) of
            None \<Rightarrow> st\<lparr> unmatchedCount := unmatchedCount st + 1 \<rparr>
          | Some eid \<Rightarrow>
              (if eid \<in> set (edgeIds st) then st
               else st\<lparr> built := built st @ [groupEdge ids (snd g)],
                        edgeIds := edgeIds st @ [eid],
                        matchedCount := matchedCount st + 1 \<rparr>)"
  have step: "processGroup ids st g = Inr ?st1" by (rule processGroup_step[OF ne])
  from Cons.IH[OF rest, of ?st1] obtain st' where
    run: "foldlE (processGroup ids) ?st1 gs = Inr st'" and
    flt: "filter (\<lambda>e. edge_id e = K) (built st') =
       filter (\<lambda>e. edge_id e = K) (built ?st1) @
         (if K \<in> set (edgeIds ?st1) then []
          else (case find (\<lambda>g. resolvedEdgeId ids (hd (snd g)) = Some K) gs of
                  None \<Rightarrow> [] | Some g \<Rightarrow> [groupEdge ids (snd g)]))"
    by blast
  have "foldlE (processGroup ids) st (g # gs) = Inr st'" using step run by simp
  moreover have "filter (\<lambda>e. edge_id e = K) (built st') =
       filter (\<lambda>e. edge_id e = K) (built st) @
         (if K \<in> set (edgeIds st) then []
          else (case find (\<lambda>g. resolvedEdgeId ids (hd (snd g)) = Some K) (g # gs) of
                  None \<Rightarrow> [] | Some g \<Rightarrow> [groupEdge ids (snd g)]))"
  proof (cases "resolvedEdgeId ids (hd (snd g))")
    case None
    then show ?thesis using flt by simp
  next
    case (Some eid)
    show ?thesis
    proof (cases "eid \<in> set (edgeIds st)")
      case True
      then show ?thesis using flt Some by auto
    next
      case False
      then show ?thesis using flt Some groupEdge_id[OF Some] by auto
    qed
  qed
  ultimately show ?case by blast
qed

lemma foldlE_edge_ids:
  assumes "\<forall>g \<in> set gs. snd g \<noteq> []"
    and "foldlE (processGroup ids) st gs = Inr st'"
    and "\<forall>e \<in> set (built st). edge_id e = source e @ ''-'' @ target e"
  shows "\<forall>e \<in> set (built st'). edge_id e = source e @ ''-'' @ target e"
  using assms
proof (induction gs arbitrary: st)
  case Nil
  then show ?case by simp
next
  case (Cons g gs)
  then have ne: "snd g \<noteq> []" and rest: "\<forall>g \<in> set gs. snd g \<noteq> []" by simp_all
  have ge: "edge_id (groupEdge ids (snd g)) = source (groupEdge ids (snd g)) @ ''-'' @ target (groupEdge ids (snd g))"
    by (simp add: groupEdge_def Let_def split: prod.splits)
  let ?st1 = "case resolvedEdgeId ids (hd (snd g)) of
            None \<Rightarrow> st\<lparr> unmatchedCount := unmatchedCount st + 1 \<rparr>
          | Some eid \<Rightarrow>
              (if eid \<in> set (edgeIds st) then st
               else st\<lparr> built := built st @ [groupEdge ids (snd g)],
                        edgeIds := edgeIds st @ [eid],
                        matchedCount := matchedCount st + 1 \<rparr>)"
  have step: "processGroup ids st g = Inr ?st1" by (rule processGroup_step[OF ne])
  with Cons.prems(2) have run: "foldlE (processGroup ids) ?st1 gs = Inr st'" by simp
  have inv: "\<forall>e \<in> set (built ?st1). edge_id e = source e @ ''-'' @ target e"
    using Cons.prems(3) ge by (auto split: option.splits)
  show ?case by (rule Cons.IH[OF rest run inv])
qed



lemma set_foldl_setAdd: "set (foldl setAdd acc xs) = set acc \<union> set xs"
  by (induction xs arbitrary: acc) (auto simp: setAdd_def)

lemma set_nodeIdsOf: "set (nodeIdsOf schemas) = fst ` set schemas"
  by (simp add: nodeIdsOf_def set_foldl_setAdd)

lemma find_unique:
  assumes "x \<in> set xs" "Q x" "\<And>y. y \<in> set xs \<Longrightarrow> Q y \<Longrightarrow> y = x"
  shows "find Q xs = Some x"
  using assms
proof (induction xs)
  case Nil
  then show ?case by simp
next
  case (Cons a xs)
  show ?case
  proof (cases "Q a")
    case True
    have "a = x" by (rule Cons.prems(3)[OF _ True]) simp
    with True show ?thesis by simp
  next
    case False
    with Cons.prems(1,2) have mem: "x \<in> set xs" by auto
    have "find Q xs = Some x"
      by (rule Cons.IH[OF mem Cons.prems(2)]) (rule Cons.prems(3), simp_all)
    with False show ?thesis by simp
  qed
qed

lemma resolvedEdgeId_exact:
  "rfrom r \<in> set ids \<Longrightarrow> rto r \<in> set ids \<Longrightarrow> resolvedEdgeId ids r = Some (groupKey r)"
  by (simp add: resolvedEdgeId_def resolveNodeId_def groupKey_def)

lemma groupEdge_exact:
  assumes "rels \<noteq> []" "rfrom (hd rels) \<in> set ids" "rto (hd rels) \<in> set ids"
  shows "source (groupEdge ids rels) = rfrom (hd rels)"
    and "target (groupEdge ids rels) = rto (hd rels)"
    and "rel_count (edge_data (groupEdge ids rels)) = length rels"
    and "edge_type (edge_data (groupEdge ids rels)) =
           (if length rels > 1 then Multiple
            else if rtype (hd rels) = OneToMany then OneToMany else OneToOne)"
  using assms(2,3)
  by (simp_all add: groupEdge_def resolveNodeId_def edgeClass_def Let_def)

text \<open>
  The edge of a pair whose two strings identify it. Let \<open>f\<close>
  and \<open>t\<close> name documents and let some relationship go from \<open>f\<close> to \<open>t\<close>. If no other
  pair has the group key of \<open>(f, t)\<close> and no other relationship resolves to its edge id,
  then exactly one edge runs from \<open>f\<close> to \<open>t\<close>; it counts the relationships from \<open>f\<close> to
  \<open>t\<close>, and its class is \<open>Multiple\<close> when there are several.
\<close>

lemma one_edge_per_pair:
  assumes ok: "createSchemaGraph schemas rels expanded = Inr g"
    and f: "f \<in> fst ` set schemas" and t: "t \<in> fst ` set schemas"
    and some: "filter (\<lambda>r. rfrom r = f \<and> rto r = t) rels \<noteq> []"
    and key: "\<forall>r \<in> set rels. groupKey r = f @ ''-'' @ t \<longrightarrow> rfrom r = f \<and> rto r = t"
    and eid: "\<forall>r \<in> set rels. resolvedEdgeId (nodeIdsOf schemas) r = Some (f @ ''-'' @ t)
                \<longrightarrow> rfrom r = f \<and> rto r = t"
  shows "\<exists>e. filter (\<lambda>e. source e = f \<and> target e = t) (edges g) = [e]
           \<and> filter (\<lambda>e. edge_id e = f @ ''-'' @ t) (edges g) = [e]
           \<and> rel_count (edge_data e) = length (filter (\<lambda>r. rfrom r = f \<and> rto r = t) rels)
           \<and> edge_type (edge_data e) =
               (if length (filter (\<lambda>r. rfrom r = f \<and> rto r = t) rels) > 1 then Multiple
                else if rtype (hd (filter (\<lambda>r. rfrom r = f \<and> rto r = t) rels)) = OneToMany
                     then OneToMany else OneToOne)"
proof -
  let ?ids = "nodeIdsOf schemas"
  let ?K = "f @ ''-'' @ t"
  let ?G = "filter (\<lambda>r. rfrom r = f \<and> rto r = t) rels"
  let ?groups = "relationshipGroups rels"
  let ?Q = "\<lambda>g. resolvedEdgeId ?ids (hd (snd g)) = Some ?K"
  let ?st0 = "\<lparr> built = [], edgeIds = [], matchedCount = 0, unmatchedCount = 0 \<rparr>"
  from ok obtain st where run: "foldlE (processGroup ?ids) ?st0 ?groups = Inr st"
    and es: "edges g = built st"
    by (auto simp: createSchemaGraph_def Let_def split: sum.splits)
  have ne: "\<forall>g \<in> set ?groups. snd g \<noteq> []"
    using relationshipGroups_member(2) by blast
  have ids: "f \<in> set ?ids" "t \<in> set ?ids" using f t by (simp_all add: set_nodeIdsOf)
  have G: "filter (\<lambda>r. groupKey r = ?K) rels = ?G"
    by (rule filter_cong[OF refl]) (use key in \<open>auto simp: groupKey_def\<close>)
  from some obtain r0 where r0: "r0 \<in> set rels" "rfrom r0 = f" "rto r0 = t"
    by (auto simp: filter_empty_conv)
  then have "groupKey r0 = ?K" by (simp add: groupKey_def)
  with r0(1) have "?K \<in> groupKey ` set rels" by (metis imageI)
  then have "map_of ?groups ?K = Some (filter (\<lambda>r. groupKey r = ?K) rels)"
    by (simp only: relationshipGroups_lookup if_True)
  then have "map_of ?groups ?K = Some ?G" by (simp only: G)
  then have mem: "(?K, ?G) \<in> set ?groups" by (rule map_of_SomeD)
  have hdG: "rfrom (hd ?G) = f \<and> rto (hd ?G) = t"
    using some hd_in_set[OF some] by auto
  have QG: "?Q (?K, ?G)"
    using hdG ids resolvedEdgeId_exact[of "hd ?G" ?ids] by (simp add: groupKey_def)
  have uniq: "g = (?K, ?G)" if g: "g \<in> set ?groups" and Qg: "?Q g" for g
  proof -
    have sg: "snd g = filter (\<lambda>r. groupKey r = fst g) rels" and nonempty: "snd g \<noteq> []"
      using relationshipGroups_member[OF g] by simp_all
    have "hd (snd g) \<in> set (snd g)" using nonempty by simp
    then have "hd (snd g) \<in> set (filter (\<lambda>r. groupKey r = fst g) rels)"
      by (simp only: sg[symmetric])
    then have h: "hd (snd g) \<in> set rels" "groupKey (hd (snd g)) = fst g"
      by simp_all
    from eid h(1) Qg have "rfrom (hd (snd g)) = f \<and> rto (hd (snd g)) = t" by blast
    then have "groupKey (hd (snd g)) = ?K" by (simp add: groupKey_def)
    with h(2) have k: "fst g = ?K" by simp
    have "snd g = ?G" using sg G by (simp only: k)
    with k show "g = (?K, ?G)" by (metis prod.collapse)
  qed
  have found: "find ?Q ?groups = Some (?K, ?G)"
    by (rule find_unique[where Q = "?Q", OF mem QG]) (rule uniq)
  from foldlE_groups[OF ne, of ?ids ?st0 ?K] run found
  have byId: "filter (\<lambda>e. edge_id e = ?K) (built st) = [groupEdge ?ids ?G]"
    by simp
  let ?E = "groupEdge ?ids ?G"
  have E: "source ?E = f" "target ?E = t" "rel_count (edge_data ?E) = length ?G"
    "edge_type (edge_data ?E) =
       (if length ?G > 1 then Multiple
        else if rtype (hd ?G) = OneToMany then OneToMany else OneToOne)"
    using groupEdge_exact[OF some, of ?ids] hdG ids by simp_all
  have inv: "\<forall>e \<in> set (built st). edge_id e = source e @ ''-'' @ target e"
    by (rule foldlE_edge_ids[OF ne run]) simp
  have "filter (\<lambda>e. source e = f \<and> target e = t) (built st)
        = filter (\<lambda>e. source e = f \<and> target e = t) (filter (\<lambda>e. edge_id e = ?K) (built st))"
    unfolding filter_filter by (rule filter_cong[OF refl]) (use inv in auto)
  also have "\<dots> = [?E]" unfolding byId using E(1,2) by simp
  finally have byPair: "filter (\<lambda>e. source e = f \<and> target e = t) (built st) = [?E]" .
  show ?thesis
    unfolding es
    by (rule exI[of _ ?E]) (simp only: byPair byId E(3,4) simp_thms)
qed

text \<open>
  Claim C1, as the code has it. Extracting the references of the three documents and
  building the graph gives, for every set of expanded nodes, the nodes \<^verbatim>\<open>a.json\<close>, \<^verbatim>\<open>b.json\<close>
  and \<^verbatim>\<open>c.json\<close>, of which \<^verbatim>\<open>a.json\<close> is not a root (both references target it) and \<^verbatim>\<open>b.json\<close>
  and \<^verbatim>\<open>c.json\<close> are roots, and exactly two edges: from \<^verbatim>\<open>b.json\<close> to \<^verbatim>\<open>a.json\<close> of class
  one-to-one and from \<^verbatim>\<open>c.json\<close> to \<^verbatim>\<open>a.json\<close> of class one-to-many.
\<close>

theorem C1_scenario:
  "\<exists>g. createSchemaGraph schemasABC (extractAll schemasABC) expanded = Inr g
     \<and> map node_id (nodes g) = [''a.json'', ''b.json'', ''c.json'']
     \<and> map (\<lambda>n. isRoot (node_data n)) (nodes g) = [False, True, True]
     \<and> map (\<lambda>e. (source e, target e, edge_type (edge_data e), rel_count (edge_data e))) (edges g)
         = [(''b.json'', ''a.json'', OneToOne, 1), (''c.json'', ''a.json'', OneToMany, 1)]"
  unfolding extractAll_ABC
  by (simp add: schemasABC_def docA_def docB_def docC_def graph_eval)

text \<open>
  Claim C1 as the specification words it fails: the root flags are the other way round,
  \<^verbatim>\<open>a.json\<close> false and \<^verbatim>\<open>b.json\<close>, \<^verbatim>\<open>c.json\<close> true.
\<close>

theorem C1_isRoot_counterexample:
  "(case createSchemaGraph schemasABC (extractAll schemasABC) {} of
      Inr g \<Rightarrow> map (\<lambda>n. (node_id n, isRoot (node_data n))) (nodes g)
    | Inl e \<Rightarrow> [])
   = [(''a.json'', False), (''b.json'', True), (''c.json'', True)]"
  unfolding extractAll_ABC
  by (simp add: schemasABC_def docA_def docB_def docC_def graph_eval)

text \<open>
  Claim C2. Whenever the graph is built, every node is the node of a document, and its root
  flag is true exactly when no relationship of the whole list has its path as target;
  neither the expanded set nor the edges enter.
\<close>

theorem C2_isRoot_iff_untargeted:
  assumes "createSchemaGraph schemas relationships expandedNodes = Inr g"
  shows "\<forall>n \<in> set (nodes g).
           node_id n \<in> fst ` set schemas \<and>
           (isRoot (node_data n) \<longleftrightarrow> (\<forall>r \<in> set relationships. rto r \<noteq> node_id n))"
proof
  fix n
  assume "n \<in> set (nodes g)"
  then obtain i where i: "i < length (nodes g)" "n = nodes g ! i"
    by (auto simp: in_set_conv_nth)
  define entry where "entry = schemas ! i"
  from createSchemaGraph_nodes[OF assms] i
  have entry: "entry \<in> set schemas" and n: "schemaNode relationships expandedNodes entry = Inr n"
    by (simp_all add: list_all2_conv_all_nth entry_def)
  from schemaNode_Inr(1,3)[OF n] entry
  show "node_id n \<in> fst ` set schemas \<and>
        (isRoot (node_data n) \<longleftrightarrow> (\<forall>r \<in> set relationships. rto r \<noteq> node_id n))"
    by (auto simp: list_ex_iff)
qed

text \<open>
  The statement of C2 at the scenario with \<^verbatim>\<open>b.json\<close> expanded: both relationships target
  \<^verbatim>\<open>a.json\<close>, the only node that is not a root.
\<close>

theorem C2_witness:
  "(\<exists>g. createSchemaGraph schemasABC (extractAll schemasABC) {''b.json''} = Inr g
       \<and> map (\<lambda>n. (node_id n, isRoot (node_data n))) (nodes g)
           = [(''a.json'', False), (''b.json'', True), (''c.json'', True)])
   \<and> map rto (extractAll schemasABC) = [''a.json'', ''a.json'']"
  using C2_isRoot_iff_untargeted[of schemasABC "extractAll schemasABC" "{''b.json''}"]
  unfolding extractAll_ABC
  by (simp add: schemasABC_def docA_def docB_def docC_def graph_eval)

text \<open>
  The same for \<open>N \<ge> 2\<close> relationships. Let the graph be built, let \<open>f\<close> and
  \<open>t\<close> name documents and let \<open>N \<ge> 2\<close> relationships go from \<open>f\<close> to \<open>t\<close>. If no
  relationship of another pair has the group key of \<open>(f, t)\<close> and none resolves to its edge
  id, then exactly one edge runs from \<open>f\<close> to \<open>t\<close>, with count \<open>N\<close> and class \<open>Multiple\<close>.
\<close>

lemma multiple_edge_per_pair:
  assumes "createSchemaGraph schemas rels expanded = Inr g"
    and "f \<in> fst ` set schemas" and "t \<in> fst ` set schemas"
    and "N = length (filter (\<lambda>r. rfrom r = f \<and> rto r = t) rels)" and "N \<ge> 2"
    and "\<forall>r \<in> set rels. groupKey r = f @ ''-'' @ t \<longrightarrow> rfrom r = f \<and> rto r = t"
    and "\<forall>r \<in> set rels. resolvedEdgeId (nodeIdsOf schemas) r = Some (f @ ''-'' @ t)
           \<longrightarrow> rfrom r = f \<and> rto r = t"
  shows "\<exists>e. filter (\<lambda>e. source e = f \<and> target e = t) (edges g) = [e]
           \<and> rel_count (edge_data e) = N \<and> edge_type (edge_data e) = Multiple"
proof -
  from assms(4,5) have ne: "filter (\<lambda>r. rfrom r = f \<and> rto r = t) rels \<noteq> []" by auto
  from one_edge_per_pair[OF assms(1,2,3) ne assms(6,7)] assms(4,5)
  show ?thesis by auto
qed

text \<open>
  An order with a billing and a shipping address: one edge of count two.
\<close>

lemma multiple_edge_example:
  "(case createSchemaGraph schemasTwice (extractAll schemasTwice) {} of
      Inr g \<Rightarrow> map (\<lambda>e. (edge_id e, edge_type (edge_data e), rel_count (edge_data e)))
                 (filter (\<lambda>e. source e = ''order.json'' \<and> target e = ''address.json'') (edges g))
    | Inl e \<Rightarrow> [])
     = [(''order.json-address.json'', Multiple, 2)]
   \<and> length (filter (\<lambda>r. rfrom r = ''order.json'' \<and> rto r = ''address.json'') (extractAll schemasTwice)) = 2
   \<and> list_all (\<lambda>r. groupKey r = ''order.json-address.json'') (extractAll schemasTwice)
   \<and> list_all (\<lambda>r. resolvedEdgeId (nodeIdsOf schemasTwice) r = Some ''order.json-address.json'')
        (extractAll schemasTwice)"
proof -
  have g: "\<exists>g. createSchemaGraph schemasTwice (extractAll schemasTwice) {} = Inr g"
    unfolding extractAll_Twice by (simp add: schemasTwice_def docTwice_def graph_eval)
  then obtain g where g: "createSchemaGraph schemasTwice (extractAll schemasTwice) {} = Inr g" ..
  have names: "''order.json'' \<in> fst ` set schemasTwice" "''address.json'' \<in> fst ` set schemasTwice"
    by (simp_all add: schemasTwice_def)
  have n: "2 = length (filter (\<lambda>r. rfrom r = ''order.json'' \<and> rto r = ''address.json'')
                  (extractAll schemasTwice))"
    unfolding extractAll_Twice by simp
  have key: "\<forall>r \<in> set (extractAll schemasTwice).
      groupKey r = ''order.json'' @ ''-'' @ ''address.json'' \<longrightarrow>
      rfrom r = ''order.json'' \<and> rto r = ''address.json''"
    unfolding extractAll_Twice by simp
  have eid: "\<forall>r \<in> set (extractAll schemasTwice).
      resolvedEdgeId (nodeIdsOf schemasTwice) r = Some (''order.json'' @ ''-'' @ ''address.json'') \<longrightarrow>
      rfrom r = ''order.json'' \<and> rto r = ''address.json''"
    unfolding extractAll_Twice by simp
  have "\<exists>e. filter (\<lambda>e. source e = ''order.json'' \<and> target e = ''address.json'') (edges g) = [e]
           \<and> rel_count (edge_data e) = 2 \<and> edge_type (edge_data e) = Multiple"
    by (rule multiple_edge_per_pair[OF g names n _ key eid]) simp
  then show ?thesis
    unfolding extractAll_Twice
    by (simp add: schemasTwice_def docTwice_def graph_eval resolvedEdgeId_def list_all_iff)
qed

text \<open>
  Claim C4 on the code, at four documents named \<^verbatim>\<open>a.json-b.json\<close>, \<^verbatim>\<open>a.json\<close>,
  \<^verbatim>\<open>b.json-c.json\<close> and \<^verbatim>\<open>c.json\<close>. Exactly two relationships go from \<^verbatim>\<open>a.json-b.json\<close> to
  \<^verbatim>\<open>c.json\<close> and one goes from \<^verbatim>\<open>a.json\<close> to \<^verbatim>\<open>b.json-c.json\<close>. The claim asks for an edge
  of count two for the first pair. All three relationships get the key
  \<^verbatim>\<open>a.json-b.json-c.json\<close>, so the only edge built counts three, and the second pair has no
  edge.
\<close>

theorem C4_key_collision:
  "map (\<lambda>r. (rfrom r, rto r)) (extractAll schemasHyphen)
     = [(''a.json-b.json'', ''c.json''), (''a.json-b.json'', ''c.json''), (''a.json'', ''b.json-c.json'')]
   \<and> (case createSchemaGraph schemasHyphen (extractAll schemasHyphen) {} of
        Inr g \<Rightarrow> map (\<lambda>e. (edge_id e, source e, target e, edge_type (edge_data e), rel_count (edge_data e))) (edges g)
      | Inl e \<Rightarrow> [])
     = [(''a.json-b.json-c.json'', ''a.json-b.json'', ''c.json'', Multiple, 3)]"
  unfolding extractAll_Hyphen
  by (simp add: schemasHyphen_def docHy1_def docHy2_def graph_eval)

section \<open>Properties of two calls of createSchemaGraph\<close>

subsection \<open>Reading and writing the store\<close>

lemmas store_defs = docsAt_def relsAt_def strsAt_def nodesAt_def edgesAt_def groupsAt_def countAt_def
  pushNode_def pushEdge_def pushRel_def addStr_def setGroup_def increment_def

lemma limit_writes [simp]:
  "limit (pushNode a n st) = limit st" "limit (pushEdge a e st) = limit st"
  "limit (pushRel a r st) = limit st" "limit (addStr a x st) = limit st"
  "limit (setGroup a k arr st) = limit st" "limit (increment a st) = limit st"
  by (simp_all add: store_defs)

lemma cellAt_writes_other:
  "b \<noteq> a \<Longrightarrow> cellAt (pushNode a n st) b = cellAt st b"
  "b \<noteq> a \<Longrightarrow> cellAt (pushEdge a e st) b = cellAt st b"
  "b \<noteq> a \<Longrightarrow> cellAt (pushRel a r st) b = cellAt st b"
  "b \<noteq> a \<Longrightarrow> cellAt (addStr a x st) b = cellAt st b"
  "b \<noteq> a \<Longrightarrow> cellAt (setGroup a k arr st) b = cellAt st b"
  "b \<noteq> a \<Longrightarrow> cellAt (increment a st) b = cellAt st b"
  by (simp_all add: store_defs)

lemma read_same_cell:
  assumes "cellAt st' b = cellAt st b"
  shows "docsAt st' b = docsAt st b" "relsAt st' b = relsAt st b" "strsAt st' b = strsAt st b"
    "nodesAt st' b = nodesAt st b" "edgesAt st' b = edgesAt st b" "groupsAt st' b = groupsAt st b"
    "countAt st' b = countAt st b"
  using assms by (simp_all add: store_defs)

lemma read_after_write:
  "nodesAt (pushNode a n st) a = nodesAt st a @ [n]"
  "edgesAt (pushEdge a e st) a = edgesAt st a @ [e]"
  "relsAt (pushRel a r st) a = relsAt st a @ [r]"
  "strsAt (addStr a x st) a = setAdd (strsAt st a) x"
  "groupsAt (setGroup a k arr st) a = groupsAt st a @ [(k, arr)]"
  "countAt (increment a st) a = countAt st a + 1"
  by (simp_all add: store_defs)

lemma alloc_facts:
  "fst (alloc c st) = limit st"
  "limit (snd (alloc c st)) = limit st + 1"
  "cellAt (snd (alloc c st)) (limit st) = Some c"
  "b \<noteq> limit st \<Longrightarrow> cellAt (snd (alloc c st)) b = cellAt st b"
  by (simp_all add: alloc_def)

lemma alloc_reads:
  "relsAt (snd (alloc (RelArray rs) st)) (limit st) = rs"
  "strsAt (snd (alloc (StrSet xs) st)) (limit st) = xs"
  "nodesAt (snd (alloc (NodeArray ns) st)) (limit st) = ns"
  "edgesAt (snd (alloc (EdgeArray es) st)) (limit st) = es"
  "groupsAt (snd (alloc (GroupMap g) st)) (limit st) = g"
  "countAt (snd (alloc (Counter n) st)) (limit st) = n"
  by (simp_all add: alloc_def store_defs)

subsection \<open>The loop over the documents\<close>

text \<open>
  The loop over the documents computes \<open>forEachE (schemaNode relationships expandedNodes)\<close>
  and the node ids, and writes to \<^verbatim>\<open>nodes\<close> and \<^verbatim>\<open>nodeIds\<close> only.
\<close>

lemma nodeStep_ok:
  assumes "schemaNode (relsAt st aR) (set (strsAt st aE)) entry = Inr n"
    and "aN \<noteq> aI" "aN \<noteq> aR" "aN \<noteq> aE" "aI \<noteq> aR" "aI \<noteq> aE"
  shows "\<exists>st1. nodeStep aR aE aN aI st entry = (None, st1)
           \<and> limit st1 = limit st
           \<and> (\<forall>a. a \<noteq> aN \<longrightarrow> a \<noteq> aI \<longrightarrow> cellAt st1 a = cellAt st a)
           \<and> nodesAt st1 aN = nodesAt st aN @ [n]
           \<and> strsAt st1 aI = setAdd (strsAt st aI) (fst entry)
           \<and> relsAt st1 aR = relsAt st aR \<and> strsAt st1 aE = strsAt st aE"
  using assms by (simp add: nodeStep_def store_defs)

lemma nodeLoop:
  assumes d: "aN \<noteq> aI" "aN \<noteq> aR" "aN \<noteq> aE" "aI \<noteq> aR" "aI \<noteq> aE"
  shows "\<exists>st'. forEachS (nodeStep aR aE aN aI) docs st =
           ((case forEachE (schemaNode (relsAt st aR) (set (strsAt st aE))) docs of
               Inl e \<Rightarrow> Some e | Inr ns \<Rightarrow> None), st')
        \<and> limit st' = limit st
        \<and> (\<forall>a. a \<noteq> aN \<longrightarrow> a \<noteq> aI \<longrightarrow> cellAt st' a = cellAt st a)
        \<and> (\<forall>ns. forEachE (schemaNode (relsAt st aR) (set (strsAt st aE))) docs = Inr ns \<longrightarrow>
             nodesAt st' aN = nodesAt st aN @ ns
             \<and> strsAt st' aI = foldl setAdd (strsAt st aI) (map fst docs))"
proof (induction docs arbitrary: st)
  case Nil
  show ?case by simp
next
  case (Cons entry docs)
  let ?R = "relsAt st aR" and ?E = "set (strsAt st aE)"
  show ?case
  proof (cases "schemaNode ?R ?E entry")
    case (Inl e)
    then show ?thesis by (simp add: nodeStep_def)
  next
    case (Inr n)
    from nodeStep_ok[OF Inr d] obtain st1 where
      s1: "nodeStep aR aE aN aI st entry = (None, st1)"
      and l1: "limit st1 = limit st"
      and f1: "\<And>a. a \<noteq> aN \<Longrightarrow> a \<noteq> aI \<Longrightarrow> cellAt st1 a = cellAt st a"
      and n1: "nodesAt st1 aN = nodesAt st aN @ [n]"
      and i1: "strsAt st1 aI = setAdd (strsAt st aI) (fst entry)"
      and r1: "relsAt st1 aR = ?R" "strsAt st1 aE = strsAt st aE"
      by blast
    from Cons.IH[of st1] obtain st' where
      run: "forEachS (nodeStep aR aE aN aI) docs st1 =
           ((case forEachE (schemaNode ?R ?E) docs of Inl e \<Rightarrow> Some e | Inr ns \<Rightarrow> None), st')"
      and l2: "limit st' = limit st1"
      and f2: "\<And>a. a \<noteq> aN \<Longrightarrow> a \<noteq> aI \<Longrightarrow> cellAt st' a = cellAt st1 a"
      and c2: "\<And>ns. forEachE (schemaNode ?R ?E) docs = Inr ns \<Longrightarrow>
             nodesAt st' aN = nodesAt st1 aN @ ns
             \<and> strsAt st' aI = foldl setAdd (strsAt st1 aI) (map fst docs)"
      unfolding r1 by blast
    have "forEachS (nodeStep aR aE aN aI) (entry # docs) st =
           ((case forEachE (schemaNode ?R ?E) (entry # docs) of
               Inl e \<Rightarrow> Some e | Inr ns \<Rightarrow> None), st')"
      using s1 run Inr by (simp split: sum.splits)
    moreover have "limit st' = limit st" using l1 l2 by simp
    moreover have "\<forall>a. a \<noteq> aN \<longrightarrow> a \<noteq> aI \<longrightarrow> cellAt st' a = cellAt st a"
      using f1 f2 by simp
    moreover have "\<forall>ns. forEachE (schemaNode ?R ?E) (entry # docs) = Inr ns \<longrightarrow>
             nodesAt st' aN = nodesAt st aN @ ns
             \<and> strsAt st' aI = foldl setAdd (strsAt st aI) (map fst (entry # docs))"
      using c2 n1 i1 Inr by (auto split: sum.splits)
    ultimately show ?thesis by blast
  qed
qed

subsection \<open>The loop over the relationships\<close>

text \<open>
  One step of the loop is \<open>addRelationship\<close> on the groups read through the map, for a new key
  and for a key that is there, and it writes to the map and to arrays allocated after it.
\<close>

lemma map_of_fresh_key:
  "map_of G key = None \<Longrightarrow> g \<in> set G \<Longrightarrow> fst g \<noteq> key"
  by (metis map_of_eq_None_iff image_eqI)

lemma groupStep_new:
  assumes inv: "groupsInv L aG st" and new: "map_of (groupsAt st aG) (groupKey rel) = None"
  shows "\<exists>st'. groupStep aG st rel = (None, st')
           \<and> groupsInv L aG st'
           \<and> groupsOf st' aG = addRelationship (groupsOf st aG) rel
           \<and> limit st \<le> limit st'
           \<and> (\<forall>a. a < L \<longrightarrow> a \<noteq> aG \<longrightarrow> cellAt st' a = cellAt st a)"
proof -
  let ?G = "groupsAt st aG" and ?key = "groupKey rel" and ?arr = "limit st"
  let ?sa = "snd (alloc (RelArray []) st)"
  let ?sb = "setGroup aG ?key ?arr ?sa"
  let ?st' = "pushRel ?arr rel ?sb"
  from inv have aG: "aG < L" "L \<le> limit st" and bound: "\<And>g. g \<in> set ?G \<Longrightarrow> L \<le> snd g \<and> snd g < limit st"
    and dk: "distinct (map fst ?G)" and da: "distinct (map snd ?G)"
    by (auto simp: groupsInv_def list_all_iff)
  have ne: "aG \<noteq> ?arr" using aG by simp
  have Ga: "groupsAt ?sa aG = ?G"
    by (rule read_same_cell) (simp add: alloc_facts ne)
  have Gb: "groupsAt ?sb aG = ?G @ [(?key, ?arr)]"
    by (simp add: read_after_write Ga)
  have G': "groupsAt ?st' aG = ?G @ [(?key, ?arr)]"
    using read_same_cell(6)[of ?st' aG ?sb] ne Gb by (simp add: cellAt_writes_other)
  have lim: "limit ?st' = limit st + 1" by (simp add: alloc_facts)
  have cells: "cellAt ?st' a = cellAt st a" if "a \<noteq> aG" "a \<noteq> ?arr" for a
    using that by (simp add: cellAt_writes_other alloc_facts)
  have old: "relsAt ?st' (snd g) = relsAt st (snd g)" if "g \<in> set ?G" for g
    by (rule read_same_cell, rule cells) (use bound[OF that] aG in auto)
  have "relsAt ?sb ?arr = relsAt ?sa ?arr"
    by (rule read_same_cell) (use ne in \<open>simp add: cellAt_writes_other\<close>)
  then have newr: "relsAt ?st' ?arr = [rel]"
    by (simp add: read_after_write alloc_reads)
  have look: "map_of (?G @ [(?key, ?arr)]) ?key = Some ?arr"
    using new by (simp add: map_of_append map_add_def)
  have step: "groupStep aG st rel = (None, ?st')"
    by (simp only: groupStep_def Let_def new case_prod_beta alloc_facts(1) Gb look refl if_True option.case)
  have fresh: "fst g \<noteq> ?key" if "g \<in> set ?G" for g
    using map_of_fresh_key[OF new that] .
  have inv': "groupsInv L aG ?st'"
    unfolding groupsInv_def G' lim
    using dk da aG bound fresh by (force simp: list_all_iff)
  have pure_new: "map_of (groupsOf st aG) ?key = None"
    using new by (simp add: groupsOf_def map_of_map_snd)
  have "groupsOf ?st' aG = map (\<lambda>g. (fst g, relsAt st (snd g))) ?G @ [(?key, [rel])]"
    unfolding groupsOf_def G' using old newr by simp
  also have "\<dots> = addRelationship (groupsOf st aG) rel"
    using pure_new fresh by (simp add: addRelationship_def Let_def groupsOf_def)
  finally have abs: "groupsOf ?st' aG = addRelationship (groupsOf st aG) rel" .
  have frame: "\<forall>a. a < L \<longrightarrow> a \<noteq> aG \<longrightarrow> cellAt ?st' a = cellAt st a"
    using aG cells by simp
  from step inv' abs lim frame show ?thesis by auto
qed

lemma groupStep_existing:
  assumes inv: "groupsInv L aG st" and old: "map_of (groupsAt st aG) (groupKey rel) = Some arr"
  shows "\<exists>st'. groupStep aG st rel = (None, st')
           \<and> groupsInv L aG st'
           \<and> groupsOf st' aG = addRelationship (groupsOf st aG) rel
           \<and> limit st \<le> limit st'
           \<and> (\<forall>a. a < L \<longrightarrow> a \<noteq> aG \<longrightarrow> cellAt st' a = cellAt st a)"
proof -
  let ?G = "groupsAt st aG" and ?key = "groupKey rel"
  let ?st' = "pushRel arr rel st"
  from inv have aG: "aG < L" "L \<le> limit st" and bound: "\<And>g. g \<in> set ?G \<Longrightarrow> L \<le> snd g \<and> snd g < limit st"
    and dk: "distinct (map fst ?G)" and da: "distinct (map snd ?G)"
    by (auto simp: groupsInv_def list_all_iff)
  from old have mem: "(?key, arr) \<in> set ?G" by (rule map_of_SomeD)
  from bound[OF mem] have arr: "L \<le> arr" "arr < limit st" by simp_all
  have ne: "aG \<noteq> arr" using aG arr by simp
  have G': "groupsAt ?st' aG = ?G"
    by (rule read_same_cell) (simp add: cellAt_writes_other ne)
  have step: "groupStep aG st rel = (None, ?st')"
    by (simp only: groupStep_def Let_def old option.distinct if_False option.case)
  have key_iff: "snd g = arr \<longleftrightarrow> fst g = ?key" if "g \<in> set ?G" for g
  proof
    assume "snd g = arr"
    with da that mem have "g = (?key, arr)"
      by (metis distinct_map inj_onD snd_conv)
    then show "fst g = ?key" by simp
  next
    assume "fst g = ?key"
    with dk that mem have "g = (?key, arr)"
      by (metis distinct_map inj_onD fst_conv)
    then show "snd g = arr" by simp
  qed
  have rd: "relsAt ?st' (snd g) = (if fst g = ?key then relsAt st (snd g) @ [rel] else relsAt st (snd g))"
    if "g \<in> set ?G" for g
  proof (cases "fst g = ?key")
    case True
    with key_iff[OF that] have "snd g = arr" by simp
    with True show ?thesis by (simp add: read_after_write)
  next
    case False
    with key_iff[OF that] have "snd g \<noteq> arr" by simp
    then have "relsAt ?st' (snd g) = relsAt st (snd g)"
      by (intro read_same_cell) (simp add: cellAt_writes_other)
    with False show ?thesis by simp
  qed
  have inv': "groupsInv L aG ?st'"
    using inv unfolding groupsInv_def G' by simp
  have pure_old: "map_of (groupsOf st aG) ?key \<noteq> None"
    using old by (simp add: groupsOf_def map_of_map_snd)
  have abs: "groupsOf ?st' aG = addRelationship (groupsOf st aG) rel"
    using pure_old rd by (simp add: addRelationship_def Let_def groupsOf_def G' comp_def)
  have frame: "\<forall>a. a < L \<longrightarrow> a \<noteq> aG \<longrightarrow> cellAt ?st' a = cellAt st a"
    using arr by (simp add: cellAt_writes_other)
  from step inv' abs frame show ?thesis by auto
qed

lemma groupStep_ok:
  assumes inv: "groupsInv L aG st"
  shows "\<exists>st'. groupStep aG st rel = (None, st')
           \<and> groupsInv L aG st'
           \<and> groupsOf st' aG = addRelationship (groupsOf st aG) rel
           \<and> limit st \<le> limit st'
           \<and> (\<forall>a. a < L \<longrightarrow> a \<noteq> aG \<longrightarrow> cellAt st' a = cellAt st a)"
proof (cases "map_of (groupsAt st aG) (groupKey rel)")
  case None
  from groupStep_new[OF inv None] show ?thesis .
next
  case (Some arr)
  from groupStep_existing[OF inv Some] show ?thesis .
qed

lemma groupLoop:
  assumes inv: "groupsInv L aG st"
  shows "\<exists>st'. forEachS (groupStep aG) rels st = (None, st')
           \<and> groupsInv L aG st'
           \<and> groupsOf st' aG = foldl addRelationship (groupsOf st aG) rels
           \<and> limit st \<le> limit st'
           \<and> (\<forall>a. a < L \<longrightarrow> a \<noteq> aG \<longrightarrow> cellAt st' a = cellAt st a)"
  using inv
proof (induction rels arbitrary: st)
  case Nil
  then show ?case by simp
next
  case (Cons rel rels)
  from groupStep_ok[OF Cons.prems, of rel] obtain st1 where
    s1: "groupStep aG st rel = (None, st1)" and i1: "groupsInv L aG st1"
    and a1: "groupsOf st1 aG = addRelationship (groupsOf st aG) rel"
    and l1: "limit st \<le> limit st1"
    and f1: "\<And>a. a < L \<Longrightarrow> a \<noteq> aG \<Longrightarrow> cellAt st1 a = cellAt st a"
    by blast
  from Cons.IH[OF i1] obtain st' where
    s2: "forEachS (groupStep aG) rels st1 = (None, st')" and i2: "groupsInv L aG st'"
    and a2: "groupsOf st' aG = foldl addRelationship (groupsOf st1 aG) rels"
    and l2: "limit st1 \<le> limit st'"
    and f2: "\<And>a. a < L \<Longrightarrow> a \<noteq> aG \<Longrightarrow> cellAt st' a = cellAt st1 a"
    by blast
  have "forEachS (groupStep aG) (rel # rels) st = (None, st')" using s1 s2 by simp
  moreover have "groupsOf st' aG = foldl addRelationship (groupsOf st aG) (rel # rels)"
    using a1 a2 by simp
  moreover have "limit st \<le> limit st'" using l1 l2 by simp
  moreover have "\<forall>a. a < L \<longrightarrow> a \<noteq> aG \<longrightarrow> cellAt st' a = cellAt st a"
    using f1 f2 by simp
  ultimately show ?case using i2 by blast
qed

subsection \<open>The loop over the groups\<close>

text \<open>
  One step of the loop is \<open>processGroup\<close> on the builder read from the store, and it writes
  to \<^verbatim>\<open>edges\<close>, \<^verbatim>\<open>edgeIds\<close> and the two counters only.
\<close>

lemma edgeStep_refines:
  assumes d: "distinct [aEd, aEI, aM, aU]"
  shows "\<exists>st'. edgeStep aI aEd aEI aM aU st g =
           ((case processGroup (strsAt st aI) (builderAt st aEd aEI aM aU) (fst g, relsAt st (snd g)) of
               Inl e \<Rightarrow> Some e | Inr b \<Rightarrow> None), st')
         \<and> edgeFrame aEd aEI aM aU st st'
         \<and> (\<forall>b. processGroup (strsAt st aI) (builderAt st aEd aEI aM aU) (fst g, relsAt st (snd g)) = Inr b
               \<longrightarrow> builderAt st' aEd aEI aM aU = b)"
proof (cases "relsAt st (snd g)")
  case Nil
  then show ?thesis by (simp add: edgeStep_def processGroup_def edgeFrame_def)
next
  case (Cons rel others)
  let ?ids = "strsAt st aI"
  let ?f = "resolveNodeId ?ids (rfrom rel)" and ?t = "resolveNodeId ?ids (rto rel)"
  let ?eid = "?f @ ''-'' @ ?t"
  obtain c w ty where cls: "edgeClass (rel # others) rel = (c, w, ty)"
    by (cases "edgeClass (rel # others) rel") auto
  from d have ne: "aEd \<noteq> aEI" "aEd \<noteq> aM" "aEd \<noteq> aU" "aEI \<noteq> aM" "aEI \<noteq> aU" "aM \<noteq> aU"
    by auto
  show ?thesis
  proof (cases "?f \<in> set ?ids \<and> ?t \<in> set ?ids")
    case False
    let ?st' = "increment aU st"
    have run: "edgeStep aI aEd aEI aM aU st g = (None, ?st')"
      using False Cons by (auto simp add: edgeStep_def Let_def)
    have pg: "processGroup ?ids (builderAt st aEd aEI aM aU) (fst g, relsAt st (snd g)) =
        Inr ((builderAt st aEd aEI aM aU)\<lparr> unmatchedCount := countAt st aU + 1 \<rparr>)"
      using False Cons by (auto simp add: processGroup_def Let_def builderAt_def)
    have e: "edgesAt ?st' aEd = edgesAt st aEd" "strsAt ?st' aEI = strsAt st aEI"
        "countAt ?st' aM = countAt st aM"
      using ne by (auto intro!: read_same_cell simp: cellAt_writes_other)
    have b: "builderAt ?st' aEd aEI aM aU = (builderAt st aEd aEI aM aU)\<lparr> unmatchedCount := countAt st aU + 1 \<rparr>"
      by (simp add: builderAt_def e read_after_write)
    have fr: "edgeFrame aEd aEI aM aU st ?st'"
      by (simp add: edgeFrame_def cellAt_writes_other)
    from run pg b fr show ?thesis by simp
  next
    case True
    show ?thesis
    proof (cases "?eid \<in> set (strsAt st aEI)")
      case seen: True
      have run: "edgeStep aI aEd aEI aM aU st g = (None, st)"
        using True seen Cons by (simp add: edgeStep_def Let_def)
      have pg: "processGroup ?ids (builderAt st aEd aEI aM aU) (fst g, relsAt st (snd g)) =
          Inr (builderAt st aEd aEI aM aU)"
        using True seen Cons by (simp add: processGroup_def Let_def builderAt_def)
      from run pg show ?thesis by (simp add: edgeFrame_def)
    next
      case fresh: False
      let ?e = "\<lparr> edge_id = ?eid, source = ?f, target = ?t, animated = True,
                  style = \<lparr> stroke = c, strokeWidth = w \<rparr>,
                  edge_data = \<lparr> edge_type = ty, propertyNames = namesOf (rel # others),
                                rel_count = length (rel # others) \<rparr> \<rparr>"
      let ?s1 = "pushEdge aEd ?e st"
      let ?s2 = "addStr aEI ?eid ?s1"
      let ?st' = "increment aM ?s2"
      have run: "edgeStep aI aEd aEI aM aU st g = (None, ?st')"
        using True fresh Cons cls by (simp add: edgeStep_def Let_def)
      have pg: "processGroup ?ids (builderAt st aEd aEI aM aU) (fst g, relsAt st (snd g)) =
          Inr ((builderAt st aEd aEI aM aU)\<lparr> built := edgesAt st aEd @ [?e],
                 edgeIds := strsAt st aEI @ [?eid], matchedCount := countAt st aM + 1 \<rparr>)"
        using True fresh Cons cls by (simp add: processGroup_def Let_def builderAt_def)
      have "edgesAt ?st' aEd = edgesAt ?s1 aEd"
        using ne by (intro read_same_cell) (simp add: cellAt_writes_other)
      then have e1: "edgesAt ?st' aEd = edgesAt st aEd @ [?e]" by (simp add: read_after_write)
      have "strsAt ?st' aEI = strsAt ?s2 aEI"
        using ne by (intro read_same_cell) (simp add: cellAt_writes_other)
      moreover have "strsAt ?s1 aEI = strsAt st aEI"
        using ne by (intro read_same_cell) (simp add: cellAt_writes_other)
      ultimately have e2: "strsAt ?st' aEI = strsAt st aEI @ [?eid]"
        using fresh by (simp add: read_after_write setAdd_def)
      have "countAt ?s2 aM = countAt st aM"
        using ne by (intro read_same_cell) (simp add: cellAt_writes_other)
      then have e3: "countAt ?st' aM = countAt st aM + 1" by (simp add: read_after_write)
      have e4: "countAt ?st' aU = countAt st aU"
        using ne by (intro read_same_cell) (simp add: cellAt_writes_other)
      have b: "builderAt ?st' aEd aEI aM aU = (builderAt st aEd aEI aM aU)\<lparr> built := edgesAt st aEd @ [?e],
                 edgeIds := strsAt st aEI @ [?eid], matchedCount := countAt st aM + 1 \<rparr>"
        unfolding builderAt_def e1 e2 e3 e4 by simp
      have fr: "edgeFrame aEd aEI aM aU st ?st'"
        by (simp add: edgeFrame_def cellAt_writes_other)
      from run pg b fr show ?thesis by simp
    qed
  qed
qed

lemma edgeFrame_trans:
  "edgeFrame aEd aEI aM aU st st1 \<Longrightarrow> edgeFrame aEd aEI aM aU st1 st' \<Longrightarrow> edgeFrame aEd aEI aM aU st st'"
  by (simp add: edgeFrame_def)

lemma edgeFrame_cell:
  "edgeFrame aEd aEI aM aU st st' \<Longrightarrow> a \<notin> {aEd, aEI, aM, aU} \<Longrightarrow> cellAt st' a = cellAt st a"
  by (simp add: edgeFrame_def)

lemma edgeLoop:
  assumes d: "distinct [aEd, aEI, aM, aU]" and i: "aI \<notin> {aEd, aEI, aM, aU}"
    and gs: "\<forall>g \<in> set gs. snd g \<notin> {aEd, aEI, aM, aU}"
  shows "\<exists>st'. forEachS (edgeStep aI aEd aEI aM aU) gs st =
           ((case foldlE (processGroup (strsAt st aI)) (builderAt st aEd aEI aM aU)
                    (map (\<lambda>g. (fst g, relsAt st (snd g))) gs) of
               Inl e \<Rightarrow> Some e | Inr b \<Rightarrow> None), st')
         \<and> edgeFrame aEd aEI aM aU st st'
         \<and> (\<forall>b. foldlE (processGroup (strsAt st aI)) (builderAt st aEd aEI aM aU)
                    (map (\<lambda>g. (fst g, relsAt st (snd g))) gs) = Inr b
               \<longrightarrow> builderAt st' aEd aEI aM aU = b)"
  using gs
proof (induction gs arbitrary: st)
  case Nil
  show ?case by (simp add: edgeFrame_def)
next
  case (Cons g gs)
  let ?ids = "strsAt st aI" and ?b = "builderAt st aEd aEI aM aU"
  let ?pg = "processGroup ?ids ?b (fst g, relsAt st (snd g))"
  let ?view = "\<lambda>s. map (\<lambda>g. (fst g, relsAt s (snd g))) gs"
  from edgeStep_refines[OF d, of aI st g] obtain st1 where
    s1: "edgeStep aI aEd aEI aM aU st g = ((case ?pg of Inl e \<Rightarrow> Some e | Inr b \<Rightarrow> None), st1)"
    and f1: "edgeFrame aEd aEI aM aU st st1"
    and b1: "\<And>b. ?pg = Inr b \<Longrightarrow> builderAt st1 aEd aEI aM aU = b"
    by blast
  show ?case
  proof (cases ?pg)
    case (Inl e)
    with s1 f1 show ?thesis by simp
  next
    case (Inr b)
    have ids1: "strsAt st1 aI = ?ids"
      by (rule read_same_cell, rule edgeFrame_cell[OF f1 i])
    have rels1: "relsAt st1 (snd g') = relsAt st (snd g')" if "g' \<in> set gs" for g'
      by (rule read_same_cell, rule edgeFrame_cell[OF f1]) (use Cons.prems that in simp)
    have view1: "?view st1 = ?view st" using rels1 by simp
    have gs': "\<forall>g \<in> set gs. snd g \<notin> {aEd, aEI, aM, aU}" using Cons.prems by simp
    from Cons.IH[OF gs', of st1] obtain st' where
      s2: "forEachS (edgeStep aI aEd aEI aM aU) gs st1 =
             ((case foldlE (processGroup ?ids) b (?view st) of Inl e \<Rightarrow> Some e | Inr b \<Rightarrow> None), st')"
      and f2: "edgeFrame aEd aEI aM aU st1 st'"
      and b2: "\<And>b'. foldlE (processGroup ?ids) b (?view st) = Inr b' \<Longrightarrow> builderAt st' aEd aEI aM aU = b'"
      unfolding ids1 view1 b1[OF Inr] by blast
    have "forEachS (edgeStep aI aEd aEI aM aU) (g # gs) st =
           ((case foldlE (processGroup ?ids) ?b (map (\<lambda>g. (fst g, relsAt st (snd g))) (g # gs)) of
               Inl e \<Rightarrow> Some e | Inr b \<Rightarrow> None), st')"
      using s1 s2 Inr by simp
    moreover have "edgeFrame aEd aEI aM aU st st'" using f1 f2 by (rule edgeFrame_trans)
    moreover have "\<forall>b'. foldlE (processGroup ?ids) ?b (map (\<lambda>g. (fst g, relsAt st (snd g))) (g # gs)) = Inr b'
               \<longrightarrow> builderAt st' aEd aEI aM aU = b'"
      using b2 Inr by simp
    ultimately show ?thesis by blast
  qed
qed

subsection \<open>A call\<close>

text \<open>
  A call on a store in which the three arguments are allocated ends as \<open>createSchemaGraph\<close>
  does on what the three cells hold, its result read from the store it leaves; it changes
  no cell that was in use before, and the two arrays it returns are in use after it.
\<close>

lemma alloc_obtain:
  "\<exists>st'. alloc c st = (limit st, st') \<and> limit st' = limit st + 1
        \<and> cellAt st' (limit st) = Some c
        \<and> (\<forall>b. b \<noteq> limit st \<longrightarrow> cellAt st' b = cellAt st b)"
  by (simp add: alloc_def)

lemma createSchemaGraphS_refines:
  assumes args: "aS < limit st0" "aR < limit st0" "aE < limit st0"
  shows "\<exists>res st'. createSchemaGraphS aS aR aE st0 = (res, st')
           \<and> outcome (res, st') = createSchemaGraph (docsAt st0 aS) (relsAt st0 aR) (set (strsAt st0 aE))
           \<and> limit st0 \<le> limit st'
           \<and> (\<forall>a. a < limit st0 \<longrightarrow> cellAt st' a = cellAt st0 a)
           \<and> (\<forall>r. res = Inr r \<longrightarrow> fst r < limit st' \<and> snd r < limit st')"
proof -
  let ?n = "limit st0"
  let ?docs = "docsAt st0 aS" and ?rels = "relsAt st0 aR" and ?exp = "set (strsAt st0 aE)"
  obtain st1 where a1: "alloc (NodeArray []) st0 = (?n, st1)" and l1: "limit st1 = ?n + 1"
    and c1: "cellAt st1 ?n = Some (NodeArray [])" and f1: "\<And>b. b \<noteq> ?n \<Longrightarrow> cellAt st1 b = cellAt st0 b"
    using alloc_obtain[of "NodeArray []" st0] by blast
  obtain st2 where a2: "alloc (EdgeArray []) st1 = (?n + 1, st2)" and l2: "limit st2 = ?n + 2"
    and c2: "cellAt st2 (?n + 1) = Some (EdgeArray [])" and f2: "\<And>b. b \<noteq> ?n + 1 \<Longrightarrow> cellAt st2 b = cellAt st1 b"
    using alloc_obtain[of "EdgeArray []" st1] l1 by auto
  obtain st3 where a3: "alloc (StrSet []) st2 = (?n + 2, st3)" and l3: "limit st3 = ?n + 3"
    and c3: "cellAt st3 (?n + 2) = Some (StrSet [])" and f3: "\<And>b. b \<noteq> ?n + 2 \<Longrightarrow> cellAt st3 b = cellAt st2 b"
    using alloc_obtain[of "StrSet []" st2] l2 by auto
  have old3: "cellAt st3 a = cellAt st0 a" if "a < ?n" for a
    using that f1 f2 f3 by simp
  have in3: "docsAt st3 aS = ?docs" "relsAt st3 aR = ?rels" "strsAt st3 aE = strsAt st0 aE"
    using args by (auto intro!: read_same_cell old3)
  have n3: "nodesAt st3 ?n = []" using c1 f2 f3 by (simp add: nodesAt_def)
  have e3: "edgesAt st3 (?n + 1) = []" using c2 f3 by (simp add: edgesAt_def)
  have i3: "strsAt st3 (?n + 2) = []" using c3 by (simp add: strsAt_def)
  let ?pure_nodes = "forEachE (schemaNode ?rels ?exp) ?docs"
  have d: "?n \<noteq> ?n + 2" "?n \<noteq> aR" "?n \<noteq> aE" "?n + 2 \<noteq> aR" "?n + 2 \<noteq> aE"
    using args by auto
  from nodeLoop[OF d, of ?docs st3] obtain st4 where
    s4: "forEachS (nodeStep aR aE ?n (?n + 2)) ?docs st3 =
           ((case ?pure_nodes of Inl e \<Rightarrow> Some e | Inr ns \<Rightarrow> None), st4)"
    and l4: "limit st4 = ?n + 3"
    and f4: "\<And>a. a \<noteq> ?n \<Longrightarrow> a \<noteq> ?n + 2 \<Longrightarrow> cellAt st4 a = cellAt st3 a"
    and r4: "\<And>ns. ?pure_nodes = Inr ns \<Longrightarrow>
               nodesAt st4 ?n = ns \<and> strsAt st4 (?n + 2) = nodeIdsOf ?docs"
    unfolding in3 n3 i3 l3 nodeIdsOf_def by auto
  have old4: "cellAt st4 a = cellAt st0 a" if "a < ?n" for a
    using that f4 old3 by simp
  have head: "createSchemaGraphS aS aR aE st0 =
      (case forEachS (nodeStep aR aE ?n (?n + 2)) ?docs st3 of
        (Some e, st4) \<Rightarrow> (Inl e, st4)
      | (None, st4) \<Rightarrow>
          (case alloc (StrSet []) st4 of (aEdgeIds, st5) \<Rightarrow>
           case alloc (Counter 0) st5 of (aMatched, st6) \<Rightarrow>
           case alloc (Counter 0) st6 of (aUnmatched, st7) \<Rightarrow>
           case alloc (GroupMap []) st7 of (aGroups, st8) \<Rightarrow>
           case forEachS (groupStep aGroups) (relsAt st8 aR) st8 of
             (Some e, st9) \<Rightarrow> (Inl e, st9)
           | (None, st9) \<Rightarrow>
               (case forEachS (edgeStep (?n + 2) (?n + 1) aEdgeIds aMatched aUnmatched)
                       (groupsAt st9 aGroups) st9 of
                  (Some e, st10) \<Rightarrow> (Inl e, st10)
                | (None, st10) \<Rightarrow> (Inr (?n, ?n + 1), st10))))"
    by (simp only: createSchemaGraphS_def a1 a2 a3 prod.case in3)
  show ?thesis
  proof (cases ?pure_nodes)
    case (Inl e)
    have "createSchemaGraphS aS aR aE st0 = (Inl e, st4)"
      unfolding head s4 Inl by simp
    moreover have "outcome (Inl e, st4) = createSchemaGraph ?docs ?rels ?exp"
      by (simp add: outcome_def createSchemaGraph_def Inl)
    ultimately show ?thesis using l4 old4 by auto
  next
    case (Inr ns)
    from r4[OF Inr] have n4: "nodesAt st4 ?n = ns" and i4: "strsAt st4 (?n + 2) = nodeIdsOf ?docs"
      by simp_all
    obtain st5 where a5: "alloc (StrSet []) st4 = (?n + 3, st5)" and l5: "limit st5 = ?n + 4"
      and c5: "cellAt st5 (?n + 3) = Some (StrSet [])" and f5: "\<And>b. b \<noteq> ?n + 3 \<Longrightarrow> cellAt st5 b = cellAt st4 b"
      using alloc_obtain[of "StrSet []" st4] l4 by auto
    obtain st6 where a6: "alloc (Counter 0) st5 = (?n + 4, st6)" and l6: "limit st6 = ?n + 5"
      and c6: "cellAt st6 (?n + 4) = Some (Counter 0)" and f6: "\<And>b. b \<noteq> ?n + 4 \<Longrightarrow> cellAt st6 b = cellAt st5 b"
      using alloc_obtain[of "Counter 0" st5] l5 by auto
    obtain st7 where a7: "alloc (Counter 0) st6 = (?n + 5, st7)" and l7: "limit st7 = ?n + 6"
      and c7: "cellAt st7 (?n + 5) = Some (Counter 0)" and f7: "\<And>b. b \<noteq> ?n + 5 \<Longrightarrow> cellAt st7 b = cellAt st6 b"
      using alloc_obtain[of "Counter 0" st6] l6 by auto
    obtain st8 where a8: "alloc (GroupMap []) st7 = (?n + 6, st8)" and l8: "limit st8 = ?n + 7"
      and c8: "cellAt st8 (?n + 6) = Some (GroupMap [])" and f8: "\<And>b. b \<noteq> ?n + 6 \<Longrightarrow> cellAt st8 b = cellAt st7 b"
      using alloc_obtain[of "GroupMap []" st7] l7 by auto
    have old8: "cellAt st8 a = cellAt st4 a" if "a < ?n + 3" for a
      using that f5 f6 f7 f8 by simp
    have rels8: "relsAt st8 aR = ?rels"
    proof -
      have "cellAt st8 aR = cellAt st0 aR" using old8[of aR] old4[of aR] args by simp
      then show ?thesis by (rule read_same_cell)
    qed
    have g8: "groupsAt st8 (?n + 6) = []" using c8 by (simp add: groupsAt_def)
    have inv8: "groupsInv (?n + 7) (?n + 6) st8"
      by (simp add: groupsInv_def g8 l8)
    from groupLoop[OF inv8, of ?rels] obtain st9 where
      s9: "forEachS (groupStep (?n + 6)) ?rels st8 = (None, st9)"
      and inv9: "groupsInv (?n + 7) (?n + 6) st9"
      and g9: "groupsOf st9 (?n + 6) = relationshipGroups ?rels"
      and l9: "limit st8 \<le> limit st9"
      and f9: "\<And>a. a < ?n + 7 \<Longrightarrow> a \<noteq> ?n + 6 \<Longrightarrow> cellAt st9 a = cellAt st8 a"
      unfolding relationshipGroups_def groupsOf_def g8 by auto
    have c9: "cellAt st9 a = cellAt st8 a" if "a < ?n + 6" for a
      using that f9 by simp
    have ids9: "strsAt st9 (?n + 2) = nodeIdsOf ?docs"
    proof -
      have "cellAt st9 (?n + 2) = cellAt st4 (?n + 2)" using c9[of "?n + 2"] old8[of "?n + 2"] by simp
      then have "strsAt st9 (?n + 2) = strsAt st4 (?n + 2)" by (rule read_same_cell)
      with i4 show ?thesis by simp
    qed
    have ed9: "edgesAt st9 (?n + 1) = []"
    proof -
      have "cellAt st9 (?n + 1) = cellAt st3 (?n + 1)"
        using c9[of "?n + 1"] old8[of "?n + 1"] f4[of "?n + 1"] by simp
      then have "edgesAt st9 (?n + 1) = edgesAt st3 (?n + 1)" by (rule read_same_cell)
      with e3 show ?thesis by simp
    qed
    have ei9: "strsAt st9 (?n + 3) = []"
      using c9[of "?n + 3"] c5 f6 f7 f8 by (simp add: strsAt_def)
    have m9: "countAt st9 (?n + 4) = 0"
      using c9[of "?n + 4"] c6 f7 f8 by (simp add: countAt_def)
    have u9: "countAt st9 (?n + 5) = 0"
      using c9[of "?n + 5"] c7 f8 by (simp add: countAt_def)
    have b9: "builderAt st9 (?n + 1) (?n + 3) (?n + 4) (?n + 5) =
        \<lparr> built = [], edgeIds = [], matchedCount = 0, unmatchedCount = 0 \<rparr>"
      by (simp only: builderAt_def ed9 ei9 m9 u9)
    let ?pure_edges = "foldlE (processGroup (nodeIdsOf ?docs))
        \<lparr> built = [], edgeIds = [], matchedCount = 0, unmatchedCount = 0 \<rparr> (relationshipGroups ?rels)"
    have dist: "distinct [?n + 1, ?n + 3, ?n + 4, ?n + 5]" by simp
    have ino: "?n + 2 \<notin> {?n + 1, ?n + 3, ?n + 4, ?n + 5}" by simp
    have gso: "\<forall>g \<in> set (groupsAt st9 (?n + 6)). snd g \<notin> {?n + 1, ?n + 3, ?n + 4, ?n + 5}"
      using inv9 by (auto simp: groupsInv_def list_all_iff)
    from edgeLoop[OF dist ino gso, of st9] obtain st10 where
      s10: "forEachS (edgeStep (?n + 2) (?n + 1) (?n + 3) (?n + 4) (?n + 5)) (groupsAt st9 (?n + 6)) st9 =
              ((case ?pure_edges of Inl e \<Rightarrow> Some e | Inr b \<Rightarrow> None), st10)"
      and f10: "edgeFrame (?n + 1) (?n + 3) (?n + 4) (?n + 5) st9 st10"
      and r10: "\<And>b. ?pure_edges = Inr b \<Longrightarrow> builderAt st10 (?n + 1) (?n + 3) (?n + 4) (?n + 5) = b"
      unfolding ids9 b9 g9[unfolded groupsOf_def] by blast
    have c10: "cellAt st10 a = cellAt st9 a" if "a \<notin> {?n + 1, ?n + 3, ?n + 4, ?n + 5}" for a
      using edgeFrame_cell[OF f10 that] .
    have l10: "limit st10 = limit st9" using f10 by (simp add: edgeFrame_def)
    have old10: "cellAt st10 a = cellAt st0 a" if "a < ?n" for a
      using that c10[of a] c9[of a] old8[of a] old4[of a] by simp
    have lim: "?n + 7 \<le> limit st10" using l10 l9 l8 by simp
    have tail: "createSchemaGraphS aS aR aE st0 =
        (case forEachS (edgeStep (?n + 2) (?n + 1) (?n + 3) (?n + 4) (?n + 5)) (groupsAt st9 (?n + 6)) st9 of
                  (Some e, st10) \<Rightarrow> (Inl e, st10)
                | (None, st10) \<Rightarrow> (Inr (?n, ?n + 1), st10))"
      by (simp only: head s4 Inr sum.case prod.case option.case a5 a6 a7 a8 rels8 s9)
    have pure: "createSchemaGraph ?docs ?rels ?exp =
        (case ?pure_edges of Inl e \<Rightarrow> Inl e | Inr b \<Rightarrow> Inr \<lparr> nodes = ns, edges = built b \<rparr>)"
      by (simp add: createSchemaGraph_def Inr Let_def)
    show ?thesis
    proof (cases ?pure_edges)
      case (Inl e)
      have "createSchemaGraphS aS aR aE st0 = (Inl e, st10)"
        unfolding tail s10 Inl by simp
      moreover have "outcome (Inl e, st10) = createSchemaGraph ?docs ?rels ?exp"
        by (simp add: outcome_def pure Inl)
      ultimately show ?thesis using lim old10 by auto
    next
      case edges: (Inr b)
      have run: "createSchemaGraphS aS aR aE st0 = (Inr (?n, ?n + 1), st10)"
        unfolding tail s10 edges by simp
      have "cellAt st10 ?n = cellAt st4 ?n" using c10[of ?n] c9[of ?n] old8[of ?n] by simp
      then have "nodesAt st10 ?n = nodesAt st4 ?n" by (rule read_same_cell)
      with n4 have n10: "nodesAt st10 ?n = ns" by simp
      from r10[OF edges] have "built (builderAt st10 (?n + 1) (?n + 3) (?n + 4) (?n + 5)) = built b"
        by simp
      then have e10: "edgesAt st10 (?n + 1) = built b" by (simp only: builderAt_def builder.simps)
      have "outcome (Inr (?n, ?n + 1), st10) = createSchemaGraph ?docs ?rels ?exp"
        by (simp only: outcome_def readGraph_def pure edges n10 e10 fst_conv snd_conv sum.case)
      with run lim old10 show ?thesis by auto
    qed
  qed
qed

subsection \<open>Two calls\<close>









text \<open>
  Calls on arguments that hold the same documents, relationships and expanded names, in
  whatever stores and at whatever addresses, end alike.
\<close>

lemma calls_on_equal_arguments:
  assumes "aS < limit st" and "aR < limit st" and "aE < limit st"
    and "aS' < limit st'" and "aR' < limit st'" and "aE' < limit st'"
    and "docsAt st' aS' = docsAt st aS" and "relsAt st' aR' = relsAt st aR"
    and "set (strsAt st' aE') = set (strsAt st aE)"
  shows "outcome (createSchemaGraphS aS' aR' aE' st') = outcome (createSchemaGraphS aS aR aE st)"
proof -
  from createSchemaGraphS_refines[OF assms(1-3)] have
    "outcome (createSchemaGraphS aS aR aE st)
       = createSchemaGraph (docsAt st aS) (relsAt st aR) (set (strsAt st aE))"
    by auto
  moreover from createSchemaGraphS_refines[OF assms(4-6)] have
    "outcome (createSchemaGraphS aS' aR' aE' st')
       = createSchemaGraph (docsAt st' aS') (relsAt st' aR') (set (strsAt st' aE'))"
    by auto
  ultimately show ?thesis using assms(7-9) by simp
qed



section \<open>Properties of the layout\<close>

text \<open>
  When building the request raises, the engine is not called and nothing is logged: the
  call rejects. No string label does that; a label whose \<^verbatim>\<open>length\<close> hides \<^verbatim>\<open>toString\<close>
  does, and \<^verbatim>\<open>createSchemaGraph\<close> takes such a label from a document's title.
\<close>

lemma layoutGraph_request_raises:
  "elkGraph ns es = Inl e \<Longrightarrow> layoutGraph layout console ns es = (Inl e, console)"
  by (simp add: layoutGraph_def)

lemma elkChild_string:
  "label (node_data n) = JStr s \<Longrightarrow>
   elkChild n = Inr \<lparr> child_id = node_id n, child_width = Width (clampWidth (length s)), child_height = 80 \<rparr>"
  by (cases "s = []") (simp_all add: elkChild_def orElse_def)

lemma forEachE_all_Inr:
  "(\<And>x. x \<in> set xs \<Longrightarrow> \<exists>y. body x = Inr y) \<Longrightarrow> \<exists>ys. forEachE body xs = Inr ys"
proof (induction xs)
  case Nil
  show ?case by simp
next
  case (Cons x xs)
  then obtain y ys where "body x = Inr y" "forEachE body xs = Inr ys"
    by (metis list.set_intros(1,2))
  then show ?case by simp
qed

lemma elkGraph_string_labels:
  assumes "\<And>n. n \<in> set ns \<Longrightarrow> \<exists>s. label (node_data n) = JStr s"
  shows "\<exists>request. elkGraph ns es = Inr request"
proof -
  have "\<exists>cs. forEachE elkChild ns = Inr cs"
    by (rule forEachE_all_Inr) (use assms elkChild_string in blast)
  then show ?thesis by (auto simp: elkGraph_def)
qed

lemma hidden_toString_rejects:
  "layoutGraph layout console
     [\<lparr> node_id = ''a.json'', node_type = None, node_data = \<lparr> label = hiddenToString \<rparr>,
        position = \<lparr> pos_x = 0, pos_y = 0 \<rparr> \<rparr>] []
   = (Inl TypeError, console)"
  by (simp add: layoutGraph_def elkGraph_def elkChild_def orElse_def hiddenToString_def)

lemma hidden_toString_title_rejects:
  "(case createSchemaGraph [(''a.json'', JObj [(''title'', hiddenToString)])] [] {} of
      Inr g \<Rightarrow> layoutGraph layout console (nodes g) (edges g)
    | Inl e \<Rightarrow> (Inr ([], []), console))
   = (Inl TypeError, console)"
  by (simp add: graph_eval relationshipGroups_def layoutGraph_def elkGraph_def elkChild_def
        hiddenToString_def)

lemma elkGraph_placed: "elkGraph placedNodes placedEdges = Inr placedRequest"
  by (simp add: elkGraph_def elkChild_def orElse_def placedNodes_def placedEdges_def
        placedRequest_def clampWidth_def)

text \<open>
  Claim C7. When the request is built from the nodes and edges, so that the layout engine
  is called, and the engine fails on it, \<^verbatim>\<open>layoutGraph\<close> still resolves: to the nodes it was
  given, positions included, and the edges it was given; the failure goes to the console.
\<close>

theorem C7_layout_failure_fallback:
  assumes "elkGraph ns es = Inr request" and "layout request = Inl err"
  shows "layoutGraph layout console ns es = (Inr (ns, es), console @ [(''Layout error:'', err)])"
  using assms by (simp add: layoutGraph_def)

text \<open>
  The statement of C7 at two positioned nodes and one edge, with an engine that always
  fails.
\<close>

theorem C7_witness:
  "elkGraph placedNodes placedEdges = Inr placedRequest
   \<and> failingLayout placedRequest = Inl ''layout failed''
   \<and> layoutGraph failingLayout [] placedNodes placedEdges
     = (Inr (placedNodes, placedEdges), [(''Layout error:'', ''layout failed'')])"
proof -
  have f: "failingLayout placedRequest = Inl ''layout failed''" by (simp add: failingLayout_def)
  from C7_layout_failure_fallback[where layout = failingLayout and console = "[]", OF elkGraph_placed f]
    elkGraph_placed f
  show ?thesis by simp
qed

end
